theory Spec2Isabelle
  imports Main "HOL-Library.AList"
begin

section \<open>Run-time data: values, records, scopes\<close>

text \<open>
  JavaScript values as far as the interpreter handles them: \<open>undefined\<close>, \<open>null\<close>,
  booleans, numbers (integers here), strings and the symbol \<open>EXIT_SIGNAL\<close> of
  \<^verbatim>\<open>interpreter.ts\<close>. Equality of \<open>val\<close> is JavaScript's \<open>===\<close> on these values.
\<close>

datatype val = VUndefined | VNull | VBool bool | VNum int | VStr string | EXIT_SIGNAL

text \<open>\<open>Record<string, any>\<close>: keys in insertion order.\<close>

type_synonym dict = "(string \<times> val) list"

definition getProp :: "dict \<Rightarrow> string \<Rightarrow> val" where
  "getProp d k = (case map_of d k of None \<Rightarrow> VUndefined | Some v \<Rightarrow> v)"

definition setProp :: "dict \<Rightarrow> string \<Rightarrow> val \<Rightarrow> dict" where
  "setProp d k v = AList.update k v d"

text \<open>JavaScript's boolean coercion (the test of \<open>if\<close>, \<open>&&\<close>, loop conditions).\<close>

fun truthy :: "val \<Rightarrow> bool" where
  "truthy VUndefined = False"
| "truthy VNull = False"
| "truthy (VBool b) = b"
| "truthy (VNum n) = (n \<noteq> 0)"
| "truthy (VStr s) = (s \<noteq> [])"
| "truthy EXIT_SIGNAL = True"

text \<open>\<open>Scope\<close> of \<^verbatim>\<open>type.ts\<close>. The three records are mutable objects shared with the
  stepper, so an expression returns its value together with the scope it leaves.\<close>

record scope =
  args :: dict
  local :: dict
  env :: dict

type_synonym expression = "scope \<Rightarrow> val \<times> scope"

section \<open>Statements (\<^verbatim>\<open>type.ts\<close>)\<close>

datatype literal = LStr string | LNum int | LBool bool | LNull

text \<open>\<open>Value = Literal | Expression\<close>; \<open>isFunction\<close> tells the two apart.\<close>

datatype pvalue = Lit literal | Fn expression

fun isFunction :: "pvalue \<Rightarrow> bool" where
  "isFunction (Fn f) = True"
| "isFunction (Lit l) = False"

fun literalVal :: "literal \<Rightarrow> val" where
  "literalVal (LStr s) = VStr s"
| "literalVal (LNum n) = VNum n"
| "literalVal (LBool b) = VBool b"
| "literalVal LNull = VNull"

text \<open>
  The statement kinds. Optional boolean fields (\<open>async\<close>, \<open>builtIn\<close>, \<open>skipInitialCheck\<close>)
  are \<open>bool\<close> with absent as \<open>False\<close>. A label is a \<open>string option\<close>: the source only
  ever tests \<open>statement.label\<close> for truthiness, so \<open>None\<close> stands for an absent or empty
  label. \<open>SOther\<close> stands for a statement object whose \<open>type\<close> is none of the nine handled
  tags (\<open>StatementType.Block\<close>, \<open>StatementType.FunctionDeclare\<close>, or anything else).
  Argument order:
  \<^item> \<open>SExpression expression async\<close>
  \<^item> \<open>SCall functionName parameters builtIn async\<close>
  \<^item> \<open>SReturn value\<close>
  \<^item> \<open>SIf branches otherwise\<close>
  \<^item> \<open>SSwitch pattern branches otherwise\<close>
  \<^item> \<open>SLoop skipInitialCheck initializer condition iterator label body\<close>
  \<^item> \<open>SBreak label\<close>
\<close>

datatype statement =
    SExpression expression bool
  | SCall string "(string \<times> pvalue) list" bool bool
  | SReturn "pvalue option"
  | SIf "(expression \<times> statement list) list" "statement list option"
  | SSwitch expression "(expression \<times> statement list) list" "statement list option"
  | SLoop bool "expression option" "expression option" "expression option"
      "string option" "statement list"
  | SBreak "string option"
  | SContinue
  | SExit
  | SOther

section \<open>Flow nodes (\<^verbatim>\<open>type.ts\<close>)\<close>

text \<open>
  Flow nodes are JavaScript objects that refer to each other through \<open>next\<close> (with
  cycles: the last node of a loop body points back at the loop). An object is modelled
  by its address, a \<open>ref\<close> handed out by an allocation counter; a node carries its own
  address and the address of its \<open>next\<close>. The mutable field \<open>id\<close> lives in a store
  \<open>ref \<Rightarrow> int\<close> (initially \<open>-1\<close> everywhere, as every node is created with \<open>id: -1\<close>).
  Argument order:
  \<^item> \<open>NNormal self statement next\<close>, \<open>NExternCall self statement next\<close>,
    \<open>NJump self statement next\<close>
  \<^item> \<open>NReturn self statement\<close>, \<open>NExit self statement\<close>
  \<^item> \<open>NIf self statement branches otherwise mergable next\<close>, the same for \<open>NSwitch\<close>
  \<^item> \<open>NLoop self statement body mergable next\<close>
  \<^item> \<open>NLoopInitializer self main\<close>
  \<^item> \<open>NBlock self nodes next mergable\<close>
\<close>

type_synonym ref = nat

datatype flowNode =
    NNormal ref statement ref
  | NExternCall ref statement ref
  | NReturn ref statement
  | NIf ref statement "(expression \<times> flowNode) list" "flowNode option" bool ref
  | NSwitch ref statement "(expression \<times> flowNode) list" "flowNode option" bool ref
  | NLoop ref statement flowNode bool ref
  | NLoopInitializer ref flowNode
  | NJump ref statement ref
  | NExit ref statement
  | NBlock ref "flowNode list" ref bool

fun refOf :: "flowNode \<Rightarrow> ref" where
  "refOf (NNormal r s n) = r"
| "refOf (NExternCall r s n) = r"
| "refOf (NReturn r s) = r"
| "refOf (NIf r s bs ow m n) = r"
| "refOf (NSwitch r s bs ow m n) = r"
| "refOf (NLoop r s b m n) = r"
| "refOf (NLoopInitializer r l) = r"
| "refOf (NJump r s n) = r"
| "refOf (NExit r s) = r"
| "refOf (NBlock r ns n m) = r"

text \<open>The field \<open>mergable\<close>, with the constant each object literal of
  \<open>toFlowNode\<close> gives it.\<close>

fun mergable :: "flowNode \<Rightarrow> bool" where
  "mergable (NNormal r s n) = True"
| "mergable (NExternCall r s n) = False"
| "mergable (NReturn r s) = True"
| "mergable (NIf r s bs ow m n) = m"
| "mergable (NSwitch r s bs ow m n) = m"
| "mergable (NLoop r s b m n) = m"
| "mergable (NLoopInitializer r l) = True"
| "mergable (NJump r s n) = True"
| "mergable (NExit r s) = True"
| "mergable (NBlock r ns n m) = m"

section \<open>Errors\<close>

text \<open>Every \<open>throw\<close> of the source, and the errors JavaScript itself raises where the
  code reads a property of \<open>undefined\<close>, calls a non-function or builds a function from
  text that does not parse.\<close>

datatype error =
    DuplicateLabel string
  | UndefLabel
  | UnexpectedBreak
  | UnexpectedContinue
  | UnknownStatementType
  | TypeError
  | RangeError
  | SyntaxError
  | JSTextError string
  | UnexpectNode
  | ExternCallInJIT
  | NotImplemented
  | MissingGlobalFunction string
  | MissingBuiltInFunction string
  | IdOutOfRange int

section \<open>Pass 1: \<open>flowAnalyzePass\<close> (\<^verbatim>\<open>compile.ts\<close>)\<close>

text \<open>The state the closures of \<open>flowAnalyzePass\<close> share while lowering: the
  allocation counter, \<open>labelMap\<close> and \<open>breakableNodeStack\<close> (top of the stack first).\<close>

record lstate =
  fresh :: nat
  labelMap :: "string \<rightharpoonup> ref"
  breakableNodeStack :: "ref list"

definition alloc :: "lstate \<Rightarrow> ref \<times> lstate" where
  "alloc st = (fresh st, st\<lparr>fresh := Suc (fresh st)\<rparr>)"

text \<open>\<open>branches.every((branch) => branch.node.mergable) && (otherwise?.mergable ?? true)\<close>\<close>

definition branchesMergable :: "(expression \<times> flowNode) list \<Rightarrow> flowNode option \<Rightarrow> bool" where
  "branchesMergable bs ow =
     (list_all (\<lambda>b. mergable (snd b)) bs \<and> (case ow of None \<Rightarrow> True | Some b \<Rightarrow> mergable b))"

text \<open>
  A lowering step reads and updates the shared state and may throw.
\<close>

type_synonym 'a lower = "lstate \<Rightarrow> error + ('a \<times> lstate)"

text \<open>
  \<open>toBlockFlowNode\<close>. The source lowers a block from its last statement to its first
  (\<open>statements.toReversed().map(...)\<close>, each statement getting the node of the statement
  after it as successor, held in the variable \<open>last\<close>) and reverses the result back.
  \<open>toNodes\<close> does the same by lowering the tail of the list before its head; it returns
  the nodes in source order and the final value of \<open>last\<close>. The recursion of \<open>toFlowNode\<close>
  into the statements of a block is passed in as \<open>lowerStmt\<close>, one lowering function
  per statement (see \<open>toFlowNode\<close> below, which passes itself).
\<close>

primrec toNodes :: "(ref \<Rightarrow> flowNode lower) list \<Rightarrow> ref \<Rightarrow> (flowNode list \<times> ref) lower" where
  "toNodes [] successor st = Inr (([], successor), st)"
| "toNodes (lowerStmt # rest) successor st =
     (case toNodes rest successor st of Inl e \<Rightarrow> Inl e
      | Inr ((ns, lastN), st1) \<Rightarrow>
     (case lowerStmt lastN st1 of Inl e \<Rightarrow> Inl e
      | Inr (n, st2) \<Rightarrow> Inr ((n # ns, refOf n), st2)))"

definition toBlockFlowNode :: "(ref \<Rightarrow> flowNode lower) list \<Rightarrow> ref \<Rightarrow> flowNode lower" where
  "toBlockFlowNode statements successor st =
     (case toNodes statements successor st of Inl e \<Rightarrow> Inl e
      | Inr ((nodes, lastN), st1) \<Rightarrow>
        (case alloc st1 of (r, st2) \<Rightarrow>
         Inr (NBlock r nodes successor (list_all mergable nodes), st2)))"

text \<open>\<open>statement.otherwise && toBlockFlowNode(statement.otherwise, successor)\<close>\<close>

definition toOtherwise :: "(ref \<Rightarrow> flowNode lower) list option \<Rightarrow> ref \<Rightarrow> flowNode option lower" where
  "toOtherwise ow successor st =
     (case ow of None \<Rightarrow> Inr (None, st)
      | Some b \<Rightarrow> (case toBlockFlowNode b successor st of Inl e \<Rightarrow> Inl e
                   | Inr (n, st1) \<Rightarrow> Inr (Some n, st1)))"

text \<open>The \<open>map\<close> over the branches of an If, first branch first: every body is lowered
  with the successor of the If.\<close>

primrec ifBranches :: "(expression \<times> (ref \<Rightarrow> flowNode lower) list) list \<Rightarrow> ref
    \<Rightarrow> (expression \<times> flowNode) list lower" where
  "ifBranches [] successor st = Inr ([], st)"
| "ifBranches (br # brs) successor st =
     (case toBlockFlowNode (snd br) successor st of Inl e \<Rightarrow> Inl e
      | Inr (n, st1) \<Rightarrow>
     (case ifBranches brs successor st1 of Inl e \<Rightarrow> Inl e
      | Inr (bs, st2) \<Rightarrow> Inr ((fst br, n) # bs, st2)))"

text \<open>
  The reversed \<open>map\<close> over the branches of a Switch, last branch first, with its
  variable \<open>last\<close>: \<open>last = toBlockFlowNode(body, last)\<close> lowers the body once, and the
  branch's \<open>node\<close> is a second lowering of the same body whose successor is that first
  lowering.
\<close>

primrec switchBranches :: "(expression \<times> (ref \<Rightarrow> flowNode lower) list) list \<Rightarrow> ref
    \<Rightarrow> ((expression \<times> flowNode) list \<times> ref) lower" where
  "switchBranches [] last0 st = Inr (([], last0), st)"
| "switchBranches (br # brs) last0 st =
     (case switchBranches brs last0 st of Inl e \<Rightarrow> Inl e
      | Inr ((bs, last1), st1) \<Rightarrow>
     (case toBlockFlowNode (snd br) last1 st1 of Inl e \<Rightarrow> Inl e
      | Inr (chained, st2) \<Rightarrow>
     (case toBlockFlowNode (snd br) (refOf chained) st2 of Inl e \<Rightarrow> Inl e
      | Inr (n, st3) \<Rightarrow> Inr (((fst br, n) # bs, refOf chained), st3))))"

text \<open>
  The label of a loop: \<open>if (labelMap.has(label)) throw ...; labelMap.set(label, loopNode)\<close>
  before the body is lowered, \<open>labelMap.delete(label)\<close> after it.
\<close>

definition registerLabel :: "string option \<Rightarrow> ref \<Rightarrow> lstate \<Rightarrow> error + lstate" where
  "registerLabel label loopNode st =
     (case label of None \<Rightarrow> Inr st
      | Some l \<Rightarrow> if labelMap st l \<noteq> None then Inl (DuplicateLabel l)
                  else Inr (st\<lparr>labelMap := (labelMap st)(l \<mapsto> loopNode)\<rparr>))"

definition unregisterLabel :: "string option \<Rightarrow> lstate \<Rightarrow> lstate" where
  "unregisterLabel label st =
     (case label of None \<Rightarrow> st | Some l \<Rightarrow> st\<lparr>labelMap := (labelMap st)(l := None)\<rparr>)"

text \<open>
  The Loop case of \<open>toFlowNode\<close>, given the lowering of the body's statements. The loop
  node is created first (with a placeholder block as body), registered and pushed; the
  body is lowered with the loop node as successor; then the statement's node is the
  initializer node, the body (for \<open>skipInitialCheck\<close>) or the loop node.
\<close>

definition toLoop :: "statement \<Rightarrow> bool \<Rightarrow> expression option \<Rightarrow> string option
    \<Rightarrow> (ref \<Rightarrow> flowNode lower) list \<Rightarrow> ref \<Rightarrow> flowNode lower" where
  "toLoop statement skipInitialCheck initializer label body successor st =
     (case toBlockFlowNode [] successor st of Inl e \<Rightarrow> Inl e
      | Inr (placeholder, st1) \<Rightarrow>
     (case alloc st1 of (loopNode, st2) \<Rightarrow>
     (case registerLabel label loopNode st2 of Inl e \<Rightarrow> Inl e
      | Inr st3 \<Rightarrow>
     (case toBlockFlowNode body loopNode
             (st3\<lparr>breakableNodeStack := loopNode # breakableNodeStack st3\<rparr>) of Inl e \<Rightarrow> Inl e
      | Inr (bodyNode, st5) \<Rightarrow>
        (let st6 = unregisterLabel label st5;
             st7 = st6\<lparr>breakableNodeStack := tl (breakableNodeStack st6)\<rparr>;
             loop = NLoop loopNode statement bodyNode (mergable bodyNode) successor
         in (case initializer of
               Some i \<Rightarrow> (case alloc st7 of (r, st8) \<Rightarrow> Inr (NLoopInitializer r loop, st8))
             | None \<Rightarrow> if skipInitialCheck then Inr (bodyNode, st7) else Inr (loop, st7)))))))"

text \<open>The Break and Continue cases of \<open>toFlowNode\<close>.\<close>

definition toBreak :: "string option \<Rightarrow> flowNode lower" where
  "toBreak label st =
     (case label of
        Some l \<Rightarrow>
          (case labelMap st l of None \<Rightarrow> Inl UndefLabel
           | Some to \<Rightarrow> (case alloc st of (r, st1) \<Rightarrow> Inr (NJump r (SBreak label) to, st1)))
      | None \<Rightarrow>
          (case breakableNodeStack st of [] \<Rightarrow> Inl UnexpectedBreak
           | to # _ \<Rightarrow> (case alloc st of (r, st1) \<Rightarrow> Inr (NJump r (SBreak label) to, st1))))"

definition toContinue :: "flowNode lower" where
  "toContinue st =
     (case breakableNodeStack st of [] \<Rightarrow> Inl UnexpectedContinue
      | to # _ \<Rightarrow> (case alloc st of (r, st1) \<Rightarrow> Inr (NJump r SContinue to, st1)))"

primrec toFlowNode :: "statement \<Rightarrow> ref \<Rightarrow> flowNode lower" where
  "toFlowNode (SExpression e a) successor st =
     (case alloc st of (r, st1) \<Rightarrow> Inr (NNormal r (SExpression e a) successor, st1))"
| "toFlowNode (SCall f ps builtIn a) successor st =
     (case alloc st of (r, st1) \<Rightarrow>
     if builtIn then Inr (NNormal r (SCall f ps builtIn a) successor, st1)
     else Inr (NExternCall r (SCall f ps builtIn a) successor, st1))"
| "toFlowNode (SReturn v) successor st =
     (case alloc st of (r, st1) \<Rightarrow> Inr (NReturn r (SReturn v), st1))"
| "toFlowNode (SIf brs ow) successor st =
     (case ifBranches (map (map_prod id (map toFlowNode)) brs) successor st of Inl e \<Rightarrow> Inl e
     | Inr (branches, st1) \<Rightarrow>
     (case toOtherwise (map_option (map toFlowNode) ow) successor st1 of Inl e \<Rightarrow> Inl e
      | Inr (otherwise, st2) \<Rightarrow>
        (case alloc st2 of (r, st3) \<Rightarrow>
         Inr (NIf r (SIf brs ow) branches otherwise (branchesMergable branches otherwise)
                successor, st3))))"
| "toFlowNode (SSwitch p brs ow) successor st =
     (case toOtherwise (map_option (map toFlowNode) ow) successor st of Inl e \<Rightarrow> Inl e
     | Inr (otherwise, st1) \<Rightarrow>
     (case switchBranches (map (map_prod id (map toFlowNode)) brs)
             (case otherwise of None \<Rightarrow> successor | Some n \<Rightarrow> refOf n) st1 of
        Inl e \<Rightarrow> Inl e
      | Inr ((branches, lastN), st2) \<Rightarrow>
        (case alloc st2 of (r, st3) \<Rightarrow>
         Inr (NSwitch r (SSwitch p brs ow) branches otherwise
                (branchesMergable branches otherwise) successor, st3))))"
| "toFlowNode (SLoop skip ini cond iter label body) successor st =
     toLoop (SLoop skip ini cond iter label body) skip ini label (map toFlowNode body)
       successor st"
| "toFlowNode (SBreak label) successor st = toBreak label st"
| "toFlowNode SContinue successor st = toContinue st"
| "toFlowNode SExit successor st =
     (case alloc st of (r, st1) \<Rightarrow> Inr (NExit r SExit, st1))"
| "toFlowNode SOther successor st =
     Inl UnknownStatementType"

section \<open>The labelling walk\<close>

text \<open>The \<open>id\<close> fields, and \<open>flowNodeMap.length\<close>. \<open>addNode\<close> of \<open>flowAnalyzePass\<close>:
  \<open>node.id = flowNodeMap.length; flowNodeMap.push(node)\<close>.\<close>

record idstate =
  idStore :: "ref \<Rightarrow> int"
  count :: nat

definition addNode :: "ref \<Rightarrow> idstate \<Rightarrow> idstate" where
  "addNode r s = s\<lparr>idStore := (idStore s)(r := int (count s)), count := Suc (count s)\<rparr>"

text \<open>\<open>forEach\<close> over labelling steps: the first failure ends the walk.\<close>

primrec forEachL :: "(idstate \<Rightarrow> error + idstate) list \<Rightarrow> idstate \<Rightarrow> error + idstate" where
  "forEachL [] s = Inr s"
| "forEachL (f # fs) s = (case f s of Inl e \<Rightarrow> Inl e | Inr s1 \<Rightarrow> forEachL fs s1)"

text \<open>
  \<open>labelingFlowNode\<close>. The Block case ends with \<open>node.id = node.nodes[0].id\<close>; for a
  block without nodes \<open>node.nodes[0]\<close> is \<open>undefined\<close> and reading its \<open>id\<close> throws a
  TypeError.
\<close>

primrec labelingFlowNode :: "flowNode \<Rightarrow> idstate \<Rightarrow> error + idstate" where
  "labelingFlowNode (NNormal r s n) st =
     Inr (addNode r st)"
| "labelingFlowNode (NReturn r s) st =
     Inr (addNode r st)"
| "labelingFlowNode (NJump r s n) st =
     Inr (addNode r st)"
| "labelingFlowNode (NExit r s) st =
     Inr (addNode r st)"
| "labelingFlowNode (NExternCall r s n) st =
     Inr (addNode r st)"
| "labelingFlowNode (NIf r s branches otherwise m n) st =
     (case forEachL (map (\<lambda>b. snd b) (map (map_prod id labelingFlowNode) branches)) (addNode r st) of
       Inl e \<Rightarrow> Inl e
     | Inr st1 \<Rightarrow> (case map_option labelingFlowNode otherwise of None \<Rightarrow> Inr st1
                   | Some f \<Rightarrow> f st1))"
| "labelingFlowNode (NSwitch r s branches otherwise m n) st =
     (case forEachL (map (\<lambda>b. snd b) (map (map_prod id labelingFlowNode) branches)) (addNode r st) of
       Inl e \<Rightarrow> Inl e
     | Inr st1 \<Rightarrow> (case map_option labelingFlowNode otherwise of None \<Rightarrow> Inr st1
                   | Some f \<Rightarrow> f st1))"
| "labelingFlowNode (NLoopInitializer r main) st =
     (labelingFlowNode main (addNode r st))"
| "labelingFlowNode (NLoop r s body m n) st =
     (labelingFlowNode body (addNode r st))"
| "labelingFlowNode (NBlock r nodes n m) st =
     (case forEachL (map labelingFlowNode nodes) st of Inl e \<Rightarrow> Inl e
     | Inr st1 \<Rightarrow> (case nodes of [] \<Rightarrow> Inl TypeError
                   | first # _ \<Rightarrow> Inr (st1\<lparr>idStore := (idStore st1)(r := idStore st1 (refOf first))\<rparr>)))"

text \<open>
  \<open>flowAnalyzePass\<close>: the implicit return node is created first, the program is lowered
  with it as successor, it is pushed onto the root's nodes, and the root is labelled.
  The result is the root with the store of \<open>id\<close> fields.
\<close>

definition implicitReturnStatement :: statement where
  "implicitReturnStatement = SReturn None"

definition pushNode :: "flowNode \<Rightarrow> flowNode \<Rightarrow> flowNode" where
  "pushNode root n = (case root of NBlock r nodes nx m \<Rightarrow> NBlock r (nodes @ [n]) nx m | _ \<Rightarrow> root)"

definition flowAnalyzePass :: "statement list \<Rightarrow> error + (flowNode \<times> (ref \<Rightarrow> int))" where
  "flowAnalyzePass program =
     (let st0 = \<lparr>fresh = 0, labelMap = Map.empty, breakableNodeStack = []\<rparr>;
          (r0, st1) = alloc st0;
          implicitReturnNode = NReturn r0 implicitReturnStatement
      in case toBlockFlowNode (map toFlowNode program) r0 st1 of Inl e \<Rightarrow> Inl e
         | Inr (root0, st2) \<Rightarrow>
           (let root = pushNode root0 implicitReturnNode
            in case labelingFlowNode root \<lparr>idStore = (\<lambda>r. -1), count = 0\<rparr> of Inl e \<Rightarrow> Inl e
               | Inr s \<Rightarrow> Inr (root, idStore s)))"

section \<open>Opcodes and execution nodes (\<^verbatim>\<open>type.ts\<close>)\<close>

datatype op = OpMove int | OpCall string dict int | OpReturn val | OpExit

text \<open>
  What running a piece of the program gives: a value, a thrown error, or nothing yet
  because the fuel given to it ran out (loops of the program need not end).
\<close>

datatype 'a result = Ok 'a | Throw error | OutOfFuel

text \<open>\<open>ExecutionNode = (scope: Scope) => Promise<OP> | OP\<close>: a step takes the scope
  and returns the opcode with the scope as the step leaves it. The first argument is
  the fuel for the loops inside a fused step.\<close>

type_synonym executionNode = "nat \<Rightarrow> scope \<Rightarrow> (op \<times> scope) result"

text \<open>\<open>BuiltInFunction\<close> of \<^verbatim>\<open>interpreter.ts\<close>: \<open>func(parameters, env)\<close> may change \<open>env\<close>;
  its result is returned with the \<open>env\<close> it leaves.\<close>

record builtInFunction =
  name :: string
  func :: "dict \<Rightarrow> dict \<Rightarrow> val \<times> dict"

section \<open>Pass 2, the steps of single nodes: \<open>emitNode\<close> (\<^verbatim>\<open>compile.ts\<close>)\<close>

text \<open>\<open>mapValues(statement.parameters, (value) => isFunction(value) ? value(scope) : value)\<close>\<close>

primrec evalParameters :: "(string \<times> pvalue) list \<Rightarrow> scope \<Rightarrow> dict \<times> scope" where
  "evalParameters [] sc = ([], sc)"
| "evalParameters (kv # ps) sc =
     (case snd kv of
        Fn f \<Rightarrow> (case f sc of (v, sc1) \<Rightarrow>
                  (case evalParameters ps sc1 of (d, sc2) \<Rightarrow> ((fst kv, v) # d, sc2)))
      | Lit l \<Rightarrow> (case evalParameters ps sc of (d, sc2) \<Rightarrow> ((fst kv, literalVal l) # d, sc2)))"

definition expressionStep :: "expression \<Rightarrow> int \<Rightarrow> executionNode" where
  "expressionStep expr nextId fuel sc =
     (case expr sc of (v, sc1) \<Rightarrow> Ok (OpMove nextId, sc1))"

definition builtInStep :: "builtInFunction \<Rightarrow> (string \<times> pvalue) list \<Rightarrow> int \<Rightarrow> executionNode" where
  "builtInStep builtFunc parameters nextId fuel sc =
     (case evalParameters parameters sc of (statementParameters, sc1) \<Rightarrow>
     (case func builtFunc statementParameters (env sc1) of (v, env1) \<Rightarrow>
        Ok (OpMove nextId, sc1\<lparr>env := env1\<rparr>)))"

definition externCallStep :: "string \<Rightarrow> (string \<times> pvalue) list \<Rightarrow> int \<Rightarrow> executionNode" where
  "externCallStep functionName parameters nextId fuel sc =
     (case evalParameters parameters sc of (statementParameters, sc1) \<Rightarrow>
        Ok (OpCall functionName statementParameters nextId, sc1))"

definition returnStep :: "pvalue option \<Rightarrow> executionNode" where
  "returnStep v fuel sc =
     (case v of
        Some (Fn f) \<Rightarrow> (case f sc of (x, sc1) \<Rightarrow> Ok (OpReturn x, sc1))
      | Some (Lit l) \<Rightarrow> Ok (OpReturn (literalVal l), sc)
      | None \<Rightarrow> Ok (OpReturn VUndefined, sc))"

text \<open>The step of an If: the first branch whose condition is truthy, else
  \<open>otherwise\<close>, else \<open>next\<close>. A branch is given by its condition and the id of its node.\<close>

primrec ifStep :: "(expression \<times> int) list \<Rightarrow> int option \<Rightarrow> int \<Rightarrow> executionNode" where
  "ifStep [] otherwiseId nextId fuel sc =
     (case otherwiseId of Some i \<Rightarrow> Ok (OpMove i, sc) | None \<Rightarrow> Ok (OpMove nextId, sc))"
| "ifStep (branch # branches) otherwiseId nextId fuel sc =
     (case fst branch sc of (c, sc1) \<Rightarrow>
        if truthy c then Ok (OpMove (snd branch), sc1)
        else ifStep branches otherwiseId nextId fuel sc1)"

text \<open>The step of a Switch: \<open>pattern(scope) === await branch.condition(scope)\<close> for each
  branch in turn, the pattern evaluated anew every time.\<close>

primrec switchStep :: "expression \<Rightarrow> (expression \<times> int) list \<Rightarrow> int option \<Rightarrow> int
    \<Rightarrow> executionNode" where
  "switchStep pattern [] otherwiseId nextId fuel sc =
     (case otherwiseId of Some i \<Rightarrow> Ok (OpMove i, sc) | None \<Rightarrow> Ok (OpMove nextId, sc))"
| "switchStep pattern (branch # branches) otherwiseId nextId fuel sc =
     (case pattern sc of (p, sc1) \<Rightarrow>
     (case fst branch sc1 of (c, sc2) \<Rightarrow>
        if p = c then Ok (OpMove (snd branch), sc2)
        else switchStep pattern branches otherwiseId nextId fuel sc2))"

text \<open>\<open>await main.statement.initializer!(scope)\<close>, then Move to the body or the head.\<close>

definition loopInitializerStep :: "expression option \<Rightarrow> int \<Rightarrow> executionNode" where
  "loopInitializerStep initializer target fuel sc =
     (case initializer of None \<Rightarrow> Throw TypeError
      | Some ini \<Rightarrow> (case ini sc of (v, sc1) \<Rightarrow> Ok (OpMove target, sc1)))"

text \<open>
  The step of a loop head:
  \<^verbatim>\<open>if (statement.iterator) { statement.iterator(scope); }
if (statement.condition && await statement.condition(scope)) return [Move, body.id];
else return [Move, next.id];\<close>
\<close>

definition loopStep :: "expression option \<Rightarrow> expression option \<Rightarrow> int \<Rightarrow> int \<Rightarrow> executionNode" where
  "loopStep iterator condition bodyId nextId fuel sc =
     (let sc1 = (case iterator of None \<Rightarrow> sc | Some it \<Rightarrow> snd (it sc))
      in case condition of
           None \<Rightarrow> Ok (OpMove nextId, sc1)
         | Some cond \<Rightarrow> (case cond sc1 of (c, sc2) \<Rightarrow>
                           if truthy c then Ok (OpMove bodyId, sc2)
                           else Ok (OpMove nextId, sc2)))"

definition jumpStep :: "int \<Rightarrow> executionNode" where
  "jumpStep nextId fuel sc =
     Ok (OpMove nextId, sc)"

definition exitStep :: executionNode where
  "exitStep fuel sc = Ok (OpExit, sc)"

section \<open>Fused steps: the code \<open>emitJITCode\<close> writes, and what JavaScript does with it\<close>

text \<open>
  \<open>emitJITCode\<close> writes JavaScript source text, which \<open>new AsyncFunction\<close> parses. The
  text is modelled by its syntax tree, one constructor per template of \<open>emitJITCode\<close>:
  \<^item> \<open>JHost e\<close> is \<open>emitJITExpression(e)\<close>, the parenthesised body of the arrow function
    \<open>e\<close>. The fused function binds \<open>local\<close>, \<open>args\<close>, \<open>env\<close> by destructuring its scope
    argument, so for an expression written as an arrow function over \<open>{ local, args, env }\<close>
    with an expression body and no other free variable, as all expressions of the
    README and the test are, evaluating the body is calling \<open>e\<close> on the scope. This is
    what the model takes \<open>JHost e\<close> to do.
  \<^item> \<open>JText t\<close> is text spliced into the code as it is (\<open>${v}\<close> for a value that is not a
    function).
  \<^item> \<open>JExprStmt x\<close> is \<open>x;\<close> and \<open>JEmpty\<close> the empty statement \<open>;\<close>.
  \<^item> \<open>JBuiltIn f func ps\<close> is \<open>helper.builtIn.f({"k": v, ...}, env);\<close>, where \<open>func\<close> is
    what \<open>builtInFunctions[f] = getBuiltInFunction(f).func\<close> stored under \<open>f\<close>.
  \<^item> \<open>JReturnValue x\<close> is \<open>return [OPType.Return, x];\<close>, \<open>JReturnMove n\<close> is
    \<open>return [OPType.Move, n];\<close>, \<open>JReturnExit\<close> is \<open>return [OPType.Exit];\<close>.
  \<^item> \<open>JIf bs ow\<close> is the texts \<open>if (c)B\<close> of the branches joined by \<open>else\<close>, followed by
    \<open>else B\<close> for \<open>otherwise\<close>.
  \<^item> \<open>JSwitch d cs ow\<close> is \<open>switch (d){case (c): B ... default: B}\<close>.
  \<^item> \<open>JFor i c u B\<close> is \<open>for (i; c; u) B\<close>; \<open>JDoWhile B c\<close> is \<open>do B while (c);\<close>.
  \<^item> \<open>JBreak l\<close> is \<open>break l;\<close> or \<open>break;\<close>, \<open>JContinue\<close> is \<open>continue;\<close>.
  \<^item> \<open>JBlock ss\<close> is \<open>{ ss }\<close>, \<open>JSeq ss\<close> the statements one after the other.
\<close>

datatype jsExpr = JHost expression | JText string

datatype jsStmt =
    JExprStmt jsExpr
  | JEmpty
  | JBuiltIn string "dict \<Rightarrow> dict \<Rightarrow> val \<times> dict" "(string \<times> jsExpr) list"
  | JReturnValue jsExpr
  | JReturnMove int
  | JReturnExit
  | JIf "(jsExpr \<times> jsStmt) list" "jsStmt option"
  | JSwitch jsExpr "(jsExpr \<times> jsStmt) list" "jsStmt option"
  | JFor "jsExpr option" "jsExpr option" "jsExpr option" jsStmt
  | JDoWhile jsStmt "jsExpr option"
  | JBreak "string option"
  | JContinue
  | JBlock "jsStmt list"
  | JSeq "jsStmt list"

subsection \<open>Text of literals\<close>

text \<open>\<open>${v}\<close> for a number: its decimal digits, with a minus sign when negative.\<close>

definition digitChar :: "nat \<Rightarrow> char" where
  "digitChar d = char_of (48 + d)"

fun showNat :: "nat \<Rightarrow> string" where
  "showNat n = (if n < 10 then [digitChar n] else showNat (n div 10) @ [digitChar (n mod 10)])"

declare showNat.simps [simp del]

definition showInt :: "int \<Rightarrow> string" where
  "showInt i = (if i < 0 then CHR ''-'' # showNat (nat (- i)) else showNat (nat i))"

text \<open>\<open>${v}\<close> for a literal: a string gives its characters, without quotes.\<close>

fun literalText :: "literal \<Rightarrow> string" where
  "literalText (LStr s) = s"
| "literalText (LNum n) = showInt n"
| "literalText (LBool b) = (if b then ''true'' else ''false'')"
| "literalText LNull = ''null''"

text \<open>
  What JavaScript makes of spliced text where an expression is expected. The model
  reads the tokens \<open>undefined\<close>, \<open>null\<close>, \<open>true\<close>, \<open>false\<close> and decimal integers, which is
  all that \<open>${v}\<close> gives for a value that is not a string. Any other text is JavaScript
  of its own: a SyntaxError when the function is built, a ReferenceError when the
  step runs, or whatever the text happens to compute; the model raises \<open>JSTextError\<close>
  with the text when the step runs. No result below rests on that last case.
\<close>

definition isDigit :: "char \<Rightarrow> bool" where
  "isDigit c = ((48::nat) \<le> of_char c \<and> (of_char c :: nat) \<le> 57)"

definition readNat :: "string \<Rightarrow> nat" where
  "readNat cs = foldl (\<lambda>acc c. 10 * acc + ((of_char c :: nat) - 48)) 0 cs"

definition readText :: "string \<Rightarrow> val option" where
  "readText t =
     (if t = ''undefined'' then Some VUndefined
      else if t = ''null'' then Some VNull
      else if t = ''true'' then Some (VBool True)
      else if t = ''false'' then Some (VBool False)
      else if t \<noteq> [] \<and> list_all isDigit t then Some (VNum (int (readNat t)))
      else (case t of
              c # ds \<Rightarrow> if c = CHR ''-'' \<and> ds \<noteq> [] \<and> list_all isDigit ds
                         then Some (VNum (- int (readNat ds))) else None
            | [] \<Rightarrow> None))"

definition evalJS :: "jsExpr \<Rightarrow> scope \<Rightarrow> (val \<times> scope) result" where
  "evalJS x sc =
     (case x of
        JHost e \<Rightarrow> Ok (e sc)
      | JText t \<Rightarrow> (case readText t of Some v \<Rightarrow> Ok (v, sc) | None \<Rightarrow> Throw (JSTextError t)))"

subsection \<open>Running the code\<close>

text \<open>How a statement completes: normally, by \<open>break\<close>, by \<open>continue\<close>, or by
  \<open>return\<close> of an opcode.\<close>

datatype completion = CNormal | CBreak | CContinue | CReturn op

text \<open>A condition left out of \<open>for (;;)\<close> counts as true.\<close>

definition evalOptional :: "jsExpr option \<Rightarrow> scope \<Rightarrow> (val \<times> scope) result" where
  "evalOptional x sc = (case x of None \<Rightarrow> Ok (VBool True, sc) | Some e \<Rightarrow> evalJS e sc)"

text \<open>The object literal \<open>{"k": v, ...}\<close>: the property values in order.\<close>

primrec evalProps :: "(string \<times> jsExpr) list \<Rightarrow> scope \<Rightarrow> (dict \<times> scope) result" where
  "evalProps [] sc = Ok ([], sc)"
| "evalProps (kv # ps) sc =
     (case evalJS (snd kv) sc of
        Ok (v, sc1) \<Rightarrow>
          (case evalProps ps sc1 of
             Ok (d, sc2) \<Rightarrow> Ok ((fst kv, v) # d, sc2)
           | Throw e \<Rightarrow> Throw e | OutOfFuel \<Rightarrow> OutOfFuel)
      | Throw e \<Rightarrow> Throw e | OutOfFuel \<Rightarrow> OutOfFuel)"

text \<open>A statement list: the first completion that is not normal ends it.\<close>

primrec execSeq :: "(jsStmt \<Rightarrow> scope \<Rightarrow> (completion \<times> scope) result) \<Rightarrow> jsStmt list \<Rightarrow> scope
    \<Rightarrow> (completion \<times> scope) result" where
  "execSeq ex [] sc = Ok (CNormal, sc)"
| "execSeq ex (s # ss) sc =
     (case ex s sc of
        Ok (c, sc1) \<Rightarrow> (case c of CNormal \<Rightarrow> execSeq ex ss sc1 | _ \<Rightarrow> Ok (c, sc1))
      | Throw e \<Rightarrow> Throw e | OutOfFuel \<Rightarrow> OutOfFuel)"

text \<open>\<open>if (c1) B1 else if (c2) B2 ... else B\<close>\<close>

primrec execIf :: "(jsStmt \<Rightarrow> scope \<Rightarrow> (completion \<times> scope) result) \<Rightarrow> (jsExpr \<times> jsStmt) list
    \<Rightarrow> jsStmt option \<Rightarrow> scope \<Rightarrow> (completion \<times> scope) result" where
  "execIf ex [] ow sc = (case ow of None \<Rightarrow> Ok (CNormal, sc) | Some s \<Rightarrow> ex s sc)"
| "execIf ex (b # bs) ow sc =
     (case evalJS (fst b) sc of
        Ok (c, sc1) \<Rightarrow> if truthy c then ex (snd b) sc1 else execIf ex bs ow sc1
      | Throw e \<Rightarrow> Throw e | OutOfFuel \<Rightarrow> OutOfFuel)"

text \<open>
  The case clauses of a \<open>switch\<close>, for the value \<open>d\<close> of the discriminant: the case
  expressions are evaluated in order until one is strictly equal to \<open>d\<close>; from that
  clause on, the statements of all following clauses run one after the other,
  \<open>default\<close> (written last) included. No clause equal: \<open>default\<close> alone runs.
\<close>

primrec execCases :: "(jsStmt \<Rightarrow> scope \<Rightarrow> (completion \<times> scope) result) \<Rightarrow> val
    \<Rightarrow> (jsExpr \<times> jsStmt) list \<Rightarrow> jsStmt option \<Rightarrow> scope \<Rightarrow> (completion \<times> scope) result" where
  "execCases ex d [] ow sc = (case ow of None \<Rightarrow> Ok (CNormal, sc) | Some s \<Rightarrow> ex s sc)"
| "execCases ex d (c # cs) ow sc =
     (case evalJS (fst c) sc of
        Ok (v, sc1) \<Rightarrow>
          if v = d
          then execSeq ex (map snd (c # cs) @ (case ow of None \<Rightarrow> [] | Some s \<Rightarrow> [s])) sc1
          else execCases ex d cs ow sc1
      | Throw e \<Rightarrow> Throw e | OutOfFuel \<Rightarrow> OutOfFuel)"

text \<open>
  One unit of fuel is used for every level of nesting and every turn of a loop.
  \<open>break\<close> ends the nearest enclosing loop or \<open>switch\<close>, \<open>continue\<close> goes to the update
  expression of the nearest enclosing \<open>for\<close> (to the condition of a \<open>do\<close>-\<open>while\<close>).
\<close>

primrec execJS :: "nat \<Rightarrow> jsStmt \<Rightarrow> scope \<Rightarrow> (completion \<times> scope) result" where
  "execJS 0 stmt sc = OutOfFuel"
| "execJS (Suc n) stmt sc =
     (case stmt of
       JExprStmt x \<Rightarrow>
         (case evalJS x sc of Ok (v, sc1) \<Rightarrow> Ok (CNormal, sc1)
          | Throw e \<Rightarrow> Throw e | OutOfFuel \<Rightarrow> OutOfFuel)
     | JEmpty \<Rightarrow> Ok (CNormal, sc)
     | JBuiltIn f fn ps \<Rightarrow>
         (case evalProps ps sc of
            Ok (d, sc1) \<Rightarrow> (case fn d (env sc1) of (v, env1) \<Rightarrow> Ok (CNormal, sc1\<lparr>env := env1\<rparr>))
          | Throw e \<Rightarrow> Throw e | OutOfFuel \<Rightarrow> OutOfFuel)
     | JReturnValue x \<Rightarrow>
         (case evalJS x sc of Ok (v, sc1) \<Rightarrow> Ok (CReturn (OpReturn v), sc1)
          | Throw e \<Rightarrow> Throw e | OutOfFuel \<Rightarrow> OutOfFuel)
     | JReturnMove i \<Rightarrow> Ok (CReturn (OpMove i), sc)
     | JReturnExit \<Rightarrow> Ok (CReturn OpExit, sc)
     | JIf bs ow \<Rightarrow> execIf (execJS n) bs ow sc
     | JSwitch d cs ow \<Rightarrow>
         (case evalJS d sc of
            Ok (v, sc1) \<Rightarrow>
              (case execCases (execJS n) v cs ow sc1 of
                 Ok (c, sc2) \<Rightarrow> (case c of CBreak \<Rightarrow> Ok (CNormal, sc2) | _ \<Rightarrow> Ok (c, sc2))
               | Throw e \<Rightarrow> Throw e | OutOfFuel \<Rightarrow> OutOfFuel)
          | Throw e \<Rightarrow> Throw e | OutOfFuel \<Rightarrow> OutOfFuel)
     | JFor ini cond upd body \<Rightarrow>
         (case ini of
            Some i \<Rightarrow>
              (case evalJS i sc of Ok (v, sc1) \<Rightarrow> execJS n (JFor None cond upd body) sc1
               | Throw e \<Rightarrow> Throw e | OutOfFuel \<Rightarrow> OutOfFuel)
          | None \<Rightarrow>
              (case evalOptional cond sc of
                 Ok (c, sc1) \<Rightarrow>
                   if \<not> truthy c then Ok (CNormal, sc1)
                   else (case execJS n body sc1 of
                           Ok (k, sc2) \<Rightarrow>
                             (case k of
                                CBreak \<Rightarrow> Ok (CNormal, sc2)
                              | CReturn opc \<Rightarrow> Ok (CReturn opc, sc2)
                              | _ \<Rightarrow> (case (case upd of None \<Rightarrow> Ok (VUndefined, sc2)
                                             | Some u \<Rightarrow> evalJS u sc2) of
                                        Ok (v, sc3) \<Rightarrow> execJS n (JFor None cond upd body) sc3
                                      | Throw e \<Rightarrow> Throw e | OutOfFuel \<Rightarrow> OutOfFuel))
                         | Throw e \<Rightarrow> Throw e | OutOfFuel \<Rightarrow> OutOfFuel)
               | Throw e \<Rightarrow> Throw e | OutOfFuel \<Rightarrow> OutOfFuel))
     | JDoWhile body cond \<Rightarrow>
         (case execJS n body sc of
            Ok (k, sc1) \<Rightarrow>
              (case k of
                 CBreak \<Rightarrow> Ok (CNormal, sc1)
               | CReturn opc \<Rightarrow> Ok (CReturn opc, sc1)
               | _ \<Rightarrow> (case cond of None \<Rightarrow> Throw SyntaxError
                       | Some c \<Rightarrow>
                           (case evalJS c sc1 of
                              Ok (v, sc2) \<Rightarrow>
                                if truthy v then execJS n (JDoWhile body cond) sc2
                                else Ok (CNormal, sc2)
                            | Throw e \<Rightarrow> Throw e | OutOfFuel \<Rightarrow> OutOfFuel)))
          | Throw e \<Rightarrow> Throw e | OutOfFuel \<Rightarrow> OutOfFuel)
     | JBreak l \<Rightarrow> Ok (CBreak, sc)
     | JContinue \<Rightarrow> Ok (CContinue, sc)
     | JBlock ss \<Rightarrow> execSeq (execJS n) ss sc
     | JSeq ss \<Rightarrow> execSeq (execJS n) ss sc)"

subsection \<open>What \<open>new AsyncFunction\<close> accepts\<close>

text \<open>
  \<open>new AsyncFunction("{ local, args, env }", "helper", code)\<close> throws a SyntaxError
  when the text does not parse. Of the texts \<open>emitJITCode\<close> can write, these do not:
  \<^item> an If with two or more branches: the branch texts are joined by \<open>else\<close> without a
    space, which gives \<open>}elseif (\<close>; and an If with no branch but an \<open>otherwise\<close>, whose
    text starts with \<open>else\<close>;
  \<^item> \<open>break l;\<close> with a label: no template writes a labelled statement, so the label
    is undefined;
  \<^item> \<open>break;\<close> outside a loop or \<open>switch\<close>, \<open>continue;\<close> outside a loop;
  \<^item> \<open>while ()\<close> with the condition left out.
  The arguments are "inside a loop" and "inside a loop or \<open>switch\<close>".
\<close>

primrec syntaxOk :: "jsStmt \<Rightarrow> bool \<Rightarrow> bool \<Rightarrow> bool" where
  "syntaxOk (JExprStmt x) inLoop inBreakable =
     True"
| "syntaxOk JEmpty inLoop inBreakable =
     True"
| "syntaxOk (JBuiltIn f fn ps) inLoop inBreakable =
     True"
| "syntaxOk (JReturnValue x) inLoop inBreakable =
     True"
| "syntaxOk (JReturnMove i) inLoop inBreakable =
     True"
| "syntaxOk JReturnExit inLoop inBreakable =
     True"
| "syntaxOk (JIf bs ow) inLoop inBreakable =
     ((length bs = 1 \<or> (length bs = 0 \<and> (case ow of None \<Rightarrow> True | Some s \<Rightarrow> False)))
     \<and> list_all (\<lambda>b. snd b inLoop inBreakable) (map (map_prod id syntaxOk) bs)
     \<and> (case map_option syntaxOk ow of None \<Rightarrow> True | Some f \<Rightarrow> f inLoop inBreakable))"
| "syntaxOk (JSwitch d cs ow) inLoop inBreakable =
     (list_all (\<lambda>b. snd b inLoop True) (map (map_prod id syntaxOk) cs)
     \<and> (case map_option syntaxOk ow of None \<Rightarrow> True | Some f \<Rightarrow> f inLoop True))"
| "syntaxOk (JFor ini cond upd body) inLoop inBreakable =
     syntaxOk body True True"
| "syntaxOk (JDoWhile body cond) inLoop inBreakable =
     ((case cond of None \<Rightarrow> False | Some c \<Rightarrow> True) \<and> syntaxOk body True True)"
| "syntaxOk (JBreak l) inLoop inBreakable =
     (case l of None \<Rightarrow> inBreakable | Some x \<Rightarrow> False)"
| "syntaxOk JContinue inLoop inBreakable =
     inLoop"
| "syntaxOk (JBlock ss) inLoop inBreakable =
     (list_all (\<lambda>f. f inLoop inBreakable) (map syntaxOk ss))"
| "syntaxOk (JSeq ss) inLoop inBreakable =
     (list_all (\<lambda>f. f inLoop inBreakable) (map syntaxOk ss))"

subsection \<open>\<open>emitJITCode\<close>\<close>

text \<open>Fields of a statement object; a field the statement does not have reads as
  \<open>undefined\<close> (\<open>None\<close>, \<open>False\<close>).\<close>

fun stInitializer :: "statement \<Rightarrow> expression option" where
  "stInitializer (SLoop skip ini cond iter label body) = ini"
| "stInitializer _ = None"

fun stCondition :: "statement \<Rightarrow> expression option" where
  "stCondition (SLoop skip ini cond iter label body) = cond"
| "stCondition _ = None"

fun stIterator :: "statement \<Rightarrow> expression option" where
  "stIterator (SLoop skip ini cond iter label body) = iter"
| "stIterator _ = None"

fun stSkipInitialCheck :: "statement \<Rightarrow> bool" where
  "stSkipInitialCheck (SLoop skip ini cond iter label body) = skip"
| "stSkipInitialCheck _ = False"

fun stPattern :: "statement \<Rightarrow> expression option" where
  "stPattern (SSwitch p brs ow) = Some p"
| "stPattern _ = None"

fun stValue :: "statement \<Rightarrow> pvalue option" where
  "stValue (SReturn v) = v"
| "stValue _ = None"

fun stFunctionName :: "statement \<Rightarrow> string" where
  "stFunctionName (SCall f ps b a) = f"
| "stFunctionName _ = []"

fun stParameters :: "statement \<Rightarrow> (string \<times> pvalue) list" where
  "stParameters (SCall f ps b a) = ps"
| "stParameters _ = []"

text \<open>A \<open>map\<close> whose callback may throw: the first throw ends it.\<close>

primrec collectE :: "(error + 'a) list \<Rightarrow> error + 'a list" where
  "collectE [] = Inr []"
| "collectE (x # xs) =
     (case x of Inl e \<Rightarrow> Inl e
      | Inr y \<Rightarrow> (case collectE xs of Inl e \<Rightarrow> Inl e | Inr ys \<Rightarrow> Inr (y # ys)))"

text \<open>\<open>isFunction(v) ? emitJITExpression(v) : v\<close> inside a template string.\<close>

fun jitValue :: "pvalue \<Rightarrow> jsExpr" where
  "jitValue (Fn f) = JHost f"
| "jitValue (Lit l) = JText (literalText l)"

definition optionalStmt :: "expression option \<Rightarrow> jsStmt" where
  "optionalStmt e = (case e of None \<Rightarrow> JEmpty | Some x \<Rightarrow> JExprStmt (JHost x))"

text \<open>
  \<open>emitJITCode\<close>, with \<open>entry.id\<close> and \<open>getBuiltInFunction\<close> of the enclosing
  \<open>emitJITNode\<close> and \<open>nodeGenPass\<close> as arguments. \<open>await\<close> changes nothing here, values are
  not promises, so the \<open>async\<close> prefix is not written.
\<close>

primrec emitJITCode :: "flowNode \<Rightarrow> (ref \<Rightarrow> int) \<Rightarrow> int \<Rightarrow> (string \<Rightarrow> error + builtInFunction)
    \<Rightarrow> error + jsStmt" where
  "emitJITCode (NNormal r statement nx) ids entryId getBuiltInFunction =
     (case statement of
       SExpression e a \<Rightarrow> Inr (JExprStmt (JHost e))
     | SCall functionName parameters builtIn a \<Rightarrow>
         if \<not> builtIn then Inl UnexpectNode
         else (case getBuiltInFunction functionName of Inl e \<Rightarrow> Inl e
               | Inr b \<Rightarrow> Inr (JBuiltIn functionName (func b)
                                 (map (\<lambda>kv. (fst kv, jitValue (snd kv))) parameters)))
     | _ \<Rightarrow> Inl UnexpectNode)"
| "emitJITCode (NExternCall r statement nx) ids entryId getBuiltInFunction =
     Inl ExternCallInJIT"
| "emitJITCode (NReturn r statement) ids entryId getBuiltInFunction =
     (case stValue statement of
       Some v \<Rightarrow> Inr (JReturnValue (jitValue v))
     | None \<Rightarrow> Inr (JReturnValue (JText ''undefined'')))"
| "emitJITCode (NIf r statement branches otherwise m nx) ids entryId getBuiltInFunction =
     (case collectE (map (\<lambda>b. case snd b ids entryId getBuiltInFunction of Inl e \<Rightarrow> Inl e
                               | Inr code \<Rightarrow> Inr (JHost (fst b), code))
                     (map (map_prod id emitJITCode) branches)) of Inl e \<Rightarrow> Inl e
     | Inr branchList \<Rightarrow>
       (case map_option emitJITCode otherwise of
          None \<Rightarrow> Inr (JIf branchList None)
        | Some f \<Rightarrow> (case f ids entryId getBuiltInFunction of Inl e \<Rightarrow> Inl e
                     | Inr code \<Rightarrow> Inr (JIf branchList (Some code)))))"
| "emitJITCode (NSwitch r statement branches otherwise m nx) ids entryId getBuiltInFunction =
     (case collectE (map (\<lambda>b. case snd b ids entryId getBuiltInFunction of Inl e \<Rightarrow> Inl e
                               | Inr code \<Rightarrow> Inr (JHost (fst b), code))
                     (map (map_prod id emitJITCode) branches)) of Inl e \<Rightarrow> Inl e
     | Inr branchList \<Rightarrow>
       (case (case map_option emitJITCode otherwise of
                None \<Rightarrow> Inr None
              | Some f \<Rightarrow> (case f ids entryId getBuiltInFunction of Inl e \<Rightarrow> Inl e
                           | Inr code \<Rightarrow> Inr (Some code))) of Inl e \<Rightarrow> Inl e
        | Inr otherwiseCode \<Rightarrow>
          (case stPattern statement of None \<Rightarrow> Inl TypeError
           | Some p \<Rightarrow> Inr (JSwitch (JHost p) branchList otherwiseCode))))"
| "emitJITCode (NLoopInitializer r main) ids entryId getBuiltInFunction =
     emitJITCode main ids entryId getBuiltInFunction"
| "emitJITCode (NLoop r statement body m nx) ids entryId getBuiltInFunction =
     (case emitJITCode body ids entryId getBuiltInFunction of Inl e \<Rightarrow> Inl e
     | Inr bodyCode \<Rightarrow>
         if stSkipInitialCheck statement
         then Inr (JSeq [optionalStmt (stInitializer statement),
                         JDoWhile (JBlock [bodyCode, optionalStmt (stIterator statement)])
                           (map_option JHost (stCondition statement))])
         else Inr (JFor (map_option JHost (stInitializer statement))
                        (map_option JHost (stCondition statement))
                        (map_option JHost (stIterator statement)) bodyCode))"
| "emitJITCode (NJump r statement nx) ids entryId getBuiltInFunction =
     (if ids nx < entryId then Inr (JReturnMove (ids nx))
     else (case statement of SBreak label \<Rightarrow> Inr (JBreak label) | _ \<Rightarrow> Inr JContinue))"
| "emitJITCode (NBlock r nodes nx m) ids entryId getBuiltInFunction =
     (case collectE (map (\<lambda>f. f ids entryId getBuiltInFunction) (map emitJITCode nodes)) of
       Inl e \<Rightarrow> Inl e
     | Inr codes \<Rightarrow> Inr (JBlock codes))"
| "emitJITCode (NExit r statement) ids entryId getBuiltInFunction =
     Inr JReturnExit"

section \<open>Pass 2: \<open>nodeGenPass\<close> (\<^verbatim>\<open>compile.ts\<close>)\<close>

text \<open>
  \<open>nodeMap\<close>, a JavaScript array of steps: \<open>None\<close> is an entry that holds no function
  (\<open>null\<close> from \<open>fill(null)\<close>, or a hole). \<open>addNode(id, node)\<close> is \<open>nodeMap[id] = node\<close>:
  writing at or past the end makes the array longer, leaving holes in between;
  writing at a negative index leaves the array elements and the length as they are.
\<close>

type_synonym executable = "executionNode option list"

definition addExec :: "int \<Rightarrow> executionNode \<Rightarrow> executable \<Rightarrow> executable" where
  "addExec i node nodeMap =
     (if i < 0 then nodeMap
      else if nat i < length nodeMap then nodeMap[nat i := Some node]
      else nodeMap @ replicate (nat i - length nodeMap) None @ [Some node])"

text \<open>\<open>splitArray\<close> of \<^verbatim>\<open>utils.ts\<close>.\<close>

definition splitStep :: "('a \<Rightarrow> bool) \<Rightarrow> 'a \<Rightarrow> 'a list list \<Rightarrow> 'a list list" where
  "splitStep predictor item chunks =
     (if predictor item then chunks @ [[item], []]
      else butlast chunks @ [last chunks @ [item]])"

definition splitArray :: "'a list \<Rightarrow> ('a \<Rightarrow> bool) \<Rightarrow> 'a list list" where
  "splitArray array predictor = fold (splitStep predictor) array [[]]"

text \<open>
  The fused function as a step: \<open>(scope) => jitFunction(scope, helper)\<close>. The function
  gives the opcode it returns. When its code ends without \<open>return\<close> the function gives
  \<open>undefined\<close>, and the stepper's \<open>const [type] = op\<close> throws a TypeError.
\<close>

definition jitStep :: "jsStmt \<Rightarrow> executionNode" where
  "jitStep code fuel sc =
     (case execJS fuel code sc of
        Ok (k, sc1) \<Rightarrow> (case k of CReturn opc \<Rightarrow> Ok (opc, sc1) | _ \<Rightarrow> Throw TypeError)
      | Throw e \<Rightarrow> Throw e | OutOfFuel \<Rightarrow> OutOfFuel)"

text \<open>\<open>emitJITNode\<close>: the codes of the nodes joined by newlines, built into a function
  and registered under the id of the first node.\<close>

definition emitJITNode :: "flowNode list \<Rightarrow> (ref \<Rightarrow> int) \<Rightarrow> (string \<Rightarrow> error + builtInFunction)
    \<Rightarrow> executable \<Rightarrow> error + executable" where
  "emitJITNode nodes ids getBuiltInFunction nodeMap =
     (case nodes of [] \<Rightarrow> Inl TypeError
      | entry # _ \<Rightarrow>
        (case collectE (map (\<lambda>node. emitJITCode node ids (ids (refOf entry)) getBuiltInFunction)
                         nodes) of Inl e \<Rightarrow> Inl e
         | Inr codes \<Rightarrow>
             if \<not> syntaxOk (JSeq codes) False False then Inl SyntaxError
             else Inr (addExec (ids (refOf entry)) (jitStep (JSeq codes)) nodeMap)))"

text \<open>\<open>[FlowNodeType.If, FlowNodeType.Switch, FlowNodeType.Loop].includes(node.type)\<close>\<close>

fun isIfSwitchLoop :: "flowNode \<Rightarrow> bool" where
  "isIfSwitchLoop (NIf r s bs ow m n) = True"
| "isIfSwitchLoop (NSwitch r s bs ow m n) = True"
| "isIfSwitchLoop (NLoop r s b m n) = True"
| "isIfSwitchLoop _ = False"

text \<open>
  The loop over the chunks in the Block case of \<open>emitNode\<close>. A chunk is a list of nodes,
  each with the \<open>emitNode\<close> of that node.
\<close>

type_synonym emitter = "(ref \<Rightarrow> int) \<Rightarrow> (string \<Rightarrow> error + builtInFunction) \<Rightarrow> executable
    \<Rightarrow> error + executable"

primrec emitChunks :: "(flowNode \<times> emitter) list list \<Rightarrow> emitter" where
  "emitChunks [] ids getBuiltInFunction nodeMap = Inr nodeMap"
| "emitChunks (chunk # chunks) ids getBuiltInFunction nodeMap =
     (case chunk of
        [] \<Rightarrow> emitChunks chunks ids getBuiltInFunction nodeMap
      | first # others \<Rightarrow>
          (case (if length chunk = 1 \<and> (\<not> isIfSwitchLoop (fst first) \<or> \<not> mergable (fst first))
                 then snd first ids getBuiltInFunction nodeMap
                 else emitJITNode (map fst chunk) ids getBuiltInFunction nodeMap) of
             Inl e \<Rightarrow> Inl e
           | Inr nodeMap1 \<Rightarrow> emitChunks chunks ids getBuiltInFunction nodeMap1))"

text \<open>\<open>forEach\<close> over emitters.\<close>

primrec forEachE :: "emitter list \<Rightarrow> emitter" where
  "forEachE [] ids getBuiltInFunction nodeMap = Inr nodeMap"
| "forEachE (f # fs) ids getBuiltInFunction nodeMap =
     (case f ids getBuiltInFunction nodeMap of Inl e \<Rightarrow> Inl e
      | Inr nodeMap1 \<Rightarrow> forEachE fs ids getBuiltInFunction nodeMap1)"

definition branchIds :: "(ref \<Rightarrow> int) \<Rightarrow> (expression \<times> flowNode) list \<Rightarrow> (expression \<times> int) list" where
  "branchIds ids branches = map (\<lambda>b. (fst b, ids (refOf (snd b)))) branches"

primrec emitNode :: "flowNode \<Rightarrow> emitter" where
  "emitNode (NNormal r statement nx) ids getBuiltInFunction nodeMap =
     (case statement of
       SExpression e a \<Rightarrow> Inr (addExec (ids r) (expressionStep e (ids nx)) nodeMap)
     | SCall functionName parameters builtIn a \<Rightarrow>
         if builtIn
         then (case getBuiltInFunction functionName of Inl e \<Rightarrow> Inl e
               | Inr builtFunc \<Rightarrow>
                   Inr (addExec (ids r) (builtInStep builtFunc parameters (ids nx)) nodeMap))
         else Inl NotImplemented
     | _ \<Rightarrow> Inl NotImplemented)"
| "emitNode (NExternCall r statement nx) ids getBuiltInFunction nodeMap =
     Inr (addExec (ids r)
            (externCallStep (stFunctionName statement) (stParameters statement) (ids nx))
            nodeMap)"
| "emitNode (NReturn r statement) ids getBuiltInFunction nodeMap =
     Inr (addExec (ids r) (returnStep (stValue statement)) nodeMap)"
| "emitNode (NIf r statement branches otherwise m nx) ids getBuiltInFunction nodeMap =
     (case forEachE (map snd (map (map_prod id emitNode) branches)) ids getBuiltInFunction nodeMap of
       Inl e \<Rightarrow> Inl e
     | Inr nodeMap1 \<Rightarrow>
       (case (case map_option emitNode otherwise of None \<Rightarrow> Inr nodeMap1
              | Some f \<Rightarrow> f ids getBuiltInFunction nodeMap1) of Inl e \<Rightarrow> Inl e
        | Inr nodeMap2 \<Rightarrow>
            Inr (addExec (ids r)
                   (ifStep (branchIds ids branches) (map_option (\<lambda>b. ids (refOf b)) otherwise)
                      (ids nx)) nodeMap2)))"
| "emitNode (NSwitch r statement branches otherwise m nx) ids getBuiltInFunction nodeMap =
     (case forEachE (map snd (map (map_prod id emitNode) branches)) ids getBuiltInFunction nodeMap of
       Inl e \<Rightarrow> Inl e
     | Inr nodeMap1 \<Rightarrow>
       (case (case map_option emitNode otherwise of None \<Rightarrow> Inr nodeMap1
              | Some f \<Rightarrow> f ids getBuiltInFunction nodeMap1) of Inl e \<Rightarrow> Inl e
        | Inr nodeMap2 \<Rightarrow>
            Inr (addExec (ids r)
                   (case stPattern statement of
                      None \<Rightarrow> (\<lambda>fuel sc. Throw TypeError)
                    | Some pattern \<Rightarrow>
                        switchStep pattern (branchIds ids branches)
                          (map_option (\<lambda>b. ids (refOf b)) otherwise) (ids nx)) nodeMap2)))"
| "emitNode (NLoopInitializer r main) ids getBuiltInFunction nodeMap =
     (case main of
       NLoop mr mstatement mbody mm mnx \<Rightarrow>
         emitNode main ids getBuiltInFunction
           (addExec (ids r)
              (loopInitializerStep (stInitializer mstatement)
                 (if stSkipInitialCheck mstatement then ids (refOf mbody) else ids mr)) nodeMap)
     | _ \<Rightarrow> Inl TypeError)"
| "emitNode (NLoop r statement body m nx) ids getBuiltInFunction nodeMap =
     (emitNode body ids getBuiltInFunction
       (addExec (ids r)
          (loopStep (stIterator statement) (stCondition statement) (ids (refOf body)) (ids nx))
          nodeMap))"
| "emitNode (NJump r statement nx) ids getBuiltInFunction nodeMap =
     Inr (addExec (ids r) (jumpStep (ids nx)) nodeMap)"
| "emitNode (NBlock r nodes nx m) ids getBuiltInFunction nodeMap =
     (emitChunks (splitArray (zip nodes (map emitNode nodes)) (\<lambda>p. \<not> mergable (fst p)))
       ids getBuiltInFunction nodeMap)"
| "emitNode (NExit r statement) ids getBuiltInFunction nodeMap =
     Inr (addExec (ids r) exitStep nodeMap)"

text \<open>\<open>nodeGenPass\<close>: \<open>Array(program.next.id).fill(null)\<close>, then \<open>emitNode(program)\<close>.
  \<open>Array(n)\<close> throws a RangeError for a negative \<open>n\<close>.\<close>

definition nodeGenPass :: "flowNode \<times> (ref \<Rightarrow> int) \<Rightarrow> (string \<Rightarrow> error + builtInFunction)
    \<Rightarrow> error + executable" where
  "nodeGenPass program getBuiltInFunction =
     (case program of
        (NBlock r nodes nx m, ids) \<Rightarrow>
          if ids nx < 0 then Inl RangeError
          else emitNode (NBlock r nodes nx m) ids getBuiltInFunction (replicate (nat (ids nx)) None)
      | _ \<Rightarrow> Inl TypeError)"

definition compile :: "statement list \<Rightarrow> (string \<Rightarrow> error + builtInFunction) \<Rightarrow> error + executable" where
  "compile script getBuiltInFunction =
     (case flowAnalyzePass script of Inl e \<Rightarrow> Inl e
      | Inr flowRoot \<Rightarrow> nodeGenPass flowRoot getBuiltInFunction)"

section \<open>The stepping engine (\<^verbatim>\<open>interpreter.ts\<close>)\<close>

text \<open>\<open>AnonTokyoInterpreter\<close>: the two tables.\<close>

record interpreter =
  builtInFunctionMap :: "string \<rightharpoonup> builtInFunction"
  globalFunctionMap :: "string \<rightharpoonup> executable"

definition findGlobalFunction :: "interpreter \<Rightarrow> string \<Rightarrow> error + executable" where
  "findGlobalFunction I nm =
     (case globalFunctionMap I nm of None \<Rightarrow> Inl (MissingGlobalFunction nm) | Some x \<Rightarrow> Inr x)"

definition getBuiltInFunction :: "(string \<rightharpoonup> builtInFunction) \<Rightarrow> string \<Rightarrow> error + builtInFunction" where
  "getBuiltInFunction m nm =
     (case m nm of None \<Rightarrow> Inl (MissingBuiltInFunction nm) | Some f \<Rightarrow> Inr f)"

text \<open>\<open>AnonTokyoIterator\<close>: one frame. \<open>locals\<close> is its field \<open>context\<close>, the record
  \<open>local\<close> of its scope.\<close>

record iterator =
  executable :: executable
  parameters :: dict
  locals :: dict
  current :: int
  returnValue :: val

definition newIterator :: "executable \<Rightarrow> dict \<Rightarrow> iterator" where
  "newIterator exe params =
     \<lparr>executable = exe, parameters = params, locals = [], current = 0,
      returnValue = VUndefined\<rparr>"

text \<open>
  \<open>AnonTokyoExecutionContext\<close>: \<open>env\<close> and the \<open>callStack\<close>, the iterator pushed last
  first. The source runs a callee inside the caller's \<open>next()\<close> (\<open>await callByName\<close>);
  the model keeps every frame that is in flight on \<open>callStack\<close>, as the source does, and
  the frame at its head is the one whose \<open>run()\<close> loop is executing.
\<close>

record executionContext =
  ctxEnv :: dict
  callStack :: "iterator list"

text \<open>\<open>AnonTokyoExecutable.execNode\<close>\<close>

definition execNode :: "executable \<Rightarrow> int \<Rightarrow> executionNode" where
  "execNode program i fuel sc =
     (if i \<ge> int (length program) then Throw (IdOutOfRange i)
     else if i < 0 then Throw TypeError
     else (case program ! nat i of None \<Rightarrow> Throw TypeError | Some node \<Rightarrow> node fuel sc))"

text \<open>
  \<open>AnonTokyoIterator.next\<close> for the iterator at the head of the stack, up to the point
  where the callee of a Call has been pushed: for a Call, \<open>this.current = next\<close> is
  done first, then \<open>callByName\<close> looks the function up and \<open>call\<close> pushes a new iterator.
\<close>

definition iteratorNext :: "interpreter \<Rightarrow> nat \<Rightarrow> executionContext \<Rightarrow> executionContext result" where
  "iteratorNext I fuel c =
     (case callStack c of [] \<Rightarrow> Throw TypeError
      | this # below \<Rightarrow>
        (case execNode (executable this) (current this) fuel
                \<lparr>args = parameters this, local = locals this, env = ctxEnv c\<rparr> of
           Ok (opc, sc) \<Rightarrow>
             (case (this\<lparr>parameters := args sc, locals := local sc\<rparr>, c\<lparr>ctxEnv := env sc\<rparr>) of
                (this1, c1) \<Rightarrow>
                  (case opc of
                     OpMove n \<Rightarrow> Ok (c1\<lparr>callStack := this1\<lparr>current := n\<rparr> # below\<rparr>)
                   | OpCall nm params n \<Rightarrow>
                       (case findGlobalFunction I nm of Inl e \<Rightarrow> Throw e
                        | Inr exe \<Rightarrow>
                            Ok (c1\<lparr>callStack := newIterator exe params
                                                  # this1\<lparr>current := n\<rparr> # below\<rparr>))
                   | OpReturn v \<Rightarrow>
                       Ok (c1\<lparr>callStack := this1\<lparr>current := -1, returnValue := v\<rparr> # below\<rparr>)
                   | OpExit \<Rightarrow> Ok (c1\<lparr>callStack := this1\<lparr>current := -2\<rparr> # below\<rparr>)))
         | Throw e \<Rightarrow> Throw e | OutOfFuel \<Rightarrow> OutOfFuel))"

text \<open>What \<open>run()\<close> returns once its loop has ended.\<close>

definition runResult :: "iterator \<Rightarrow> val" where
  "runResult it =
     (if current it = -1 then returnValue it
      else if current it = -2 then EXIT_SIGNAL
      else VUndefined)"

text \<open>
  One transition. While \<open>current >= 0\<close> the head iterator takes a step. Otherwise its
  \<open>run()\<close> returns, \<open>call\<close> pops it and hands the result to whoever awaited it: the
  caller's \<open>next()\<close>, which drops it (\<open>await this.executionContext.callByName(name,
  parameters); break;\<close>) and goes on with the caller's loop, or, for the bottom frame,
  \<open>exec\<close>, which returns it (\<open>Inr\<close>).
\<close>

definition machineStep :: "interpreter \<Rightarrow> nat \<Rightarrow> executionContext \<Rightarrow> (executionContext + val) result" where
  "machineStep I fuel c =
     (case callStack c of [] \<Rightarrow> Throw TypeError
      | this # below \<Rightarrow>
          if current this \<ge> 0
          then (case iteratorNext I fuel c of Ok c1 \<Rightarrow> Ok (Inl c1)
                | Throw e \<Rightarrow> Throw e | OutOfFuel \<Rightarrow> OutOfFuel)
          else (case below of [] \<Rightarrow> Ok (Inr (runResult this))
                | caller # _ \<Rightarrow> Ok (Inl (c\<lparr>callStack := below\<rparr>))))"

text \<open>The transitions up to the result of \<open>exec\<close>, one unit of fuel each; a step gets
  the fuel that is left.\<close>

primrec runMachine :: "nat \<Rightarrow> interpreter \<Rightarrow> executionContext \<Rightarrow> val result" where
  "runMachine 0 I c = OutOfFuel"
| "runMachine (Suc n) I c =
     (case machineStep I n c of
        Ok x \<Rightarrow> (case x of Inl c1 \<Rightarrow> runMachine n I c1 | Inr v \<Rightarrow> Ok v)
      | Throw e \<Rightarrow> Throw e | OutOfFuel \<Rightarrow> OutOfFuel)"

text \<open>\<open>AnonTokyoExecutable.exec\<close>: a new context with the caller's \<open>env\<close>, and \<open>call\<close>.\<close>

definition executableExec :: "interpreter \<Rightarrow> executable \<Rightarrow> dict \<Rightarrow> dict \<Rightarrow> nat \<Rightarrow> val result" where
  "executableExec I exe params environment fuel =
     runMachine fuel I \<lparr>ctxEnv = environment, callStack = [newIterator exe params]\<rparr>"

section \<open>The interpreter (\<^verbatim>\<open>interpreter.ts\<close>)\<close>

record languageFeature =
  builtInFunctions :: "builtInFunction list"
  globalFunctions :: "(string \<times> statement list) list"

text \<open>\<open>new Map(entries)\<close>: of two entries with one key the later one stays.\<close>

definition newMap :: "('k \<times> 'v) list \<Rightarrow> ('k \<rightharpoonup> 'v)" where
  "newMap entries = map_of (rev entries)"

text \<open>\<open>loadGlobalFunctions\<close>: every global function is compiled; one failure fails the
  construction of the interpreter.\<close>

definition loadGlobalFunctions :: "(string \<rightharpoonup> builtInFunction) \<Rightarrow> (string \<times> statement list) list
    \<Rightarrow> error + (string \<rightharpoonup> executable)" where
  "loadGlobalFunctions builtIns globals =
     (case collectE (map (\<lambda>g. case compile (snd g) (getBuiltInFunction builtIns) of
                                 Inl e \<Rightarrow> Inl e | Inr exe \<Rightarrow> Inr (fst g, exe)) globals) of
        Inl e \<Rightarrow> Inl e
      | Inr entries \<Rightarrow> Inr (newMap entries))"

definition newInterpreter :: "languageFeature \<Rightarrow> error + interpreter" where
  "newInterpreter lang =
     (let builtIns = newMap (map (\<lambda>e. (name e, e)) (builtInFunctions lang))
      in case loadGlobalFunctions builtIns (globalFunctions lang) of Inl e \<Rightarrow> Inl e
         | Inr globals \<Rightarrow> Inr \<lparr>builtInFunctionMap = builtIns, globalFunctionMap = globals\<rparr>)"

definition interpreterCompile :: "interpreter \<Rightarrow> statement list \<Rightarrow> error + executable" where
  "interpreterCompile I script = compile script (getBuiltInFunction (builtInFunctionMap I))"

text \<open>\<open>AnonTokyoInterpreter.exec\<close>: compile, then \<open>executable.exec\<close>.\<close>

definition interpreterExec :: "interpreter \<Rightarrow> statement list \<Rightarrow> dict \<Rightarrow> dict \<Rightarrow> nat \<Rightarrow> val result" where
  "interpreterExec I script params environment fuel =
     (case interpreterCompile I script of Inl e \<Rightarrow> Throw e
      | Inr exe \<Rightarrow> executableExec I exe params environment fuel)"

text \<open>\<open>new AnonTokyoInterpreter(lang).exec(script, parameters, env)\<close>\<close>

definition newInterpreterExec :: "languageFeature \<Rightarrow> statement list \<Rightarrow> dict \<Rightarrow> dict \<Rightarrow> nat
    \<Rightarrow> val result" where
  "newInterpreterExec lang script params environment fuel =
     (case newInterpreter lang of Inl e \<Rightarrow> Throw e
      | Inr I \<Rightarrow> interpreterExec I script params environment fuel)"

section \<open>Host expressions and programs of the scenarios\<close>

text \<open>
  Expressions as a host would write them: \<open>assignLocal k f\<close> is
  \<open>({ local, args, env }) => local.k = f\<close>, \<open>pureExpr f\<close> an expression without side
  effect, \<open>localNum k\<close> reads the number \<open>local.k\<close>. \<open>echo\<close> is a built-in that stores
  the parameter \<open>text\<close> it is called with in \<open>env.out\<close>, so a program can return what
  the built-in saw.
\<close>

definition numOf :: "val \<Rightarrow> int" where
  "numOf v = (case v of VNum n \<Rightarrow> n | _ \<Rightarrow> 0)"

definition localNum :: "string \<Rightarrow> scope \<Rightarrow> int" where
  "localNum k sc = numOf (getProp (local sc) k)"

definition assignLocal :: "string \<Rightarrow> (scope \<Rightarrow> val) \<Rightarrow> expression" where
  "assignLocal k f sc = (f sc, sc\<lparr>local := setProp (local sc) k (f sc)\<rparr>)"

definition pureExpr :: "(scope \<Rightarrow> val) \<Rightarrow> expression" where
  "pureExpr f sc = (f sc, sc)"

definition echo :: builtInFunction where
  "echo = \<lparr>name = ''echo'',
            func = (\<lambda>ps e. (VUndefined, setProp e ''out'' (getProp ps ''text'')))\<rparr>"

definition noFunctions :: interpreter where
  "noFunctions = \<lparr>builtInFunctionMap = Map.empty, globalFunctionMap = Map.empty\<rparr>"

text \<open>Reading a flow graph: every Jump of a tree with its statement and its \<open>next\<close>,
  and every loop node of a tree with its \<open>next\<close>.\<close>

primrec jumpTargets :: "flowNode \<Rightarrow> (statement \<times> ref) list" where
  "jumpTargets (NNormal r s n) = []"
| "jumpTargets (NExternCall r s n) = []"
| "jumpTargets (NReturn r s) = []"
| "jumpTargets (NIf r s bs ow m n) =
     concat (map snd (map (map_prod id jumpTargets) bs))
     @ (case map_option jumpTargets ow of None \<Rightarrow> [] | Some js \<Rightarrow> js)"
| "jumpTargets (NSwitch r s bs ow m n) =
     concat (map snd (map (map_prod id jumpTargets) bs))
     @ (case map_option jumpTargets ow of None \<Rightarrow> [] | Some js \<Rightarrow> js)"
| "jumpTargets (NLoop r s b m n) = jumpTargets b"
| "jumpTargets (NLoopInitializer r l) = jumpTargets l"
| "jumpTargets (NJump r s n) = [(s, n)]"
| "jumpTargets (NExit r s) = []"
| "jumpTargets (NBlock r ns n m) = concat (map jumpTargets ns)"

primrec loopNodes :: "flowNode \<Rightarrow> (ref \<times> ref) list" where
  "loopNodes (NNormal r s n) = []"
| "loopNodes (NExternCall r s n) = []"
| "loopNodes (NReturn r s) = []"
| "loopNodes (NIf r s bs ow m n) =
     concat (map snd (map (map_prod id loopNodes) bs))
     @ (case map_option loopNodes ow of None \<Rightarrow> [] | Some js \<Rightarrow> js)"
| "loopNodes (NSwitch r s bs ow m n) =
     concat (map snd (map (map_prod id loopNodes) bs))
     @ (case map_option loopNodes ow of None \<Rightarrow> [] | Some js \<Rightarrow> js)"
| "loopNodes (NLoop r s b m n) = (r, n) # loopNodes b"
| "loopNodes (NLoopInitializer r l) = loopNodes l"
| "loopNodes (NJump r s n) = []"
| "loopNodes (NExit r s) = []"
| "loopNodes (NBlock r ns n m) = concat (map loopNodes ns)"

fun isBreak :: "statement \<Rightarrow> bool" where
  "isBreak (SBreak l) = True"
| "isBreak _ = False"

text \<open>An interpreter with the built-in \<open>echo\<close> and a global function \<open>nop\<close> whose
  block is empty; statements that return \<open>local.k\<close> or \<open>env.out\<close>, and the call of
  \<open>nop\<close>.\<close>

definition scenarioLang :: languageFeature where
  "scenarioLang = \<lparr>builtInFunctions = [echo], globalFunctions = [(''nop'', [])]\<rparr>"

definition returnLocal :: "string \<Rightarrow> statement" where
  "returnLocal k = SReturn (Some (Fn (pureExpr (\<lambda>sc. getProp (local sc) k))))"

definition returnEnvOut :: statement where
  "returnEnvOut = SReturn (Some (Fn (pureExpr (\<lambda>sc. getProp (env sc) ''out''))))"

definition callNop :: statement where
  "callNop = SCall ''nop'' [] False False"

text \<open>Scenario 6 of the specification: the main program calls the global function
  \<open>g\<close>, \<open>g\<close> calls \<open>h\<close>, \<open>h\<close> executes Exit. After its call \<open>g\<close> goes on with a call of
  \<open>echo\<close>, and the main program returns \<open>env.out\<close>.\<close>

definition exitLang :: languageFeature where
  "exitLang = \<lparr>builtInFunctions = [echo], globalFunctions =
      [(''h'', [SExit]),
       (''g'', [SCall ''h'' [] False False,
                SCall ''echo'' [(''text'', Fn (pureExpr (\<lambda>sc. VStr ''after h'')))] True False])]\<rparr>"

definition exitMain :: "statement list" where
  "exitMain = [SCall ''g'' [] False False, returnEnvOut]"

text \<open>\<open>local.k = 0; loop while (local.k < 3) { local.k = local.k + 1; nop(); break }
  return local.k\<close>. The call of \<open>nop\<close> makes the loop a run of single steps.\<close>

definition breakLoop :: "statement list" where
  "breakLoop =
     [SExpression (assignLocal ''k'' (\<lambda>sc. VNum 0)) False,
      SLoop False None (Some (pureExpr (\<lambda>sc. VBool (localNum ''k'' sc < 3)))) None None
        [SExpression (assignLocal ''k'' (\<lambda>sc. VNum (localNum ''k'' sc + 1))) False,
         callNop,
         SBreak None],
      returnLocal ''k'']"

text \<open>The built-in call \<open>echo({text: "1"})\<close>, the parameter a string literal: once in a
  program that is fused into one step, once between two calls of \<open>nop\<close>, where it
  is a step of its own.\<close>

definition echoCall :: statement where
  "echoCall = SCall ''echo'' [(''text'', Lit (LStr ''1''))] True False"

definition echoFused :: "statement list" where
  "echoFused = [echoCall, returnEnvOut]"

definition echoStepped :: "statement list" where
  "echoStepped = [callNop, echoCall, callNop, returnEnvOut]"

text \<open>\<open>local.k = 0; loop { local.k = local.k + 1; nop() } return local.k\<close>: a loop
  without condition, initializer and iterator.\<close>

definition noConditionLoop :: "statement list" where
  "noConditionLoop =
     [SExpression (assignLocal ''k'' (\<lambda>sc. VNum 0)) False,
      SLoop False None None None None
        [SExpression (assignLocal ''k'' (\<lambda>sc. VNum (localNum ''k'' sc + 1))) False, callNop],
      returnLocal ''k'']"

text \<open>The loop with initializer \<open>local.i = 0\<close>, condition \<open>local.i < N\<close> and iterator
  \<open>local.i++\<close>. \<open>countingLoop\<close> is scenario 2 of the specification; in \<open>countingCalls\<close>
  the body counts its executions in \<open>local.k\<close> and the loop stands between two calls
  of \<open>nop\<close>.\<close>

definition forLoop :: "int \<Rightarrow> statement list \<Rightarrow> statement" where
  "forLoop N body =
     SLoop False (Some (assignLocal ''i'' (\<lambda>sc. VNum 0)))
       (Some (pureExpr (\<lambda>sc. VBool (localNum ''i'' sc < N))))
       (Some (assignLocal ''i'' (\<lambda>sc. VNum (localNum ''i'' sc + 1)))) None body"

definition countingLoop :: "statement list" where
  "countingLoop =
     [SExpression (assignLocal ''k'' (\<lambda>sc. VNum 0)) False,
      forLoop 10
        [SExpression (assignLocal ''k'' (\<lambda>sc. VNum (localNum ''k'' sc + localNum ''i'' sc))) False],
      returnLocal ''k'']"

definition countingCalls :: "int \<Rightarrow> statement list" where
  "countingCalls N =
     [SExpression (assignLocal ''k'' (\<lambda>sc. VNum 0)) False,
      callNop,
      forLoop N [SExpression (assignLocal ''k'' (\<lambda>sc. VNum (localNum ''k'' sc + 1))) False],
      callNop,
      returnLocal ''k'']"

section \<open>Compile-time failures, as the specification lists them\<close>

text \<open>
  The specification's list of compile-time failures, read off a statement in its
  context: \<open>L\<close> is the set of labels of the loops the statement is inside of, and
  \<open>inLoop\<close> says whether it is inside a loop at all. A statement has a compile-time
  error when it, or a statement nested in it, is a loop that declares a label of \<open>L\<close>
  again, a break or continue with no enclosing loop, a labelled break whose label
  is not in \<open>L\<close>, or a statement of unknown kind.
\<close>

primrec compileError :: "statement \<Rightarrow> string set \<Rightarrow> bool \<Rightarrow> bool" where
  "compileError (SExpression e a) L inLoop = False"
| "compileError (SCall f ps bi a) L inLoop = False"
| "compileError (SReturn v) L inLoop = False"
| "compileError (SIf brs ow) L inLoop =
     (list_ex (\<lambda>br. list_ex (\<lambda>f. f L inLoop) (snd br)) (map (map_prod id (map compileError)) brs)
      \<or> (case map_option (map compileError) ow of None \<Rightarrow> False
          | Some fs \<Rightarrow> list_ex (\<lambda>f. f L inLoop) fs))"
| "compileError (SSwitch p brs ow) L inLoop =
     (list_ex (\<lambda>br. list_ex (\<lambda>f. f L inLoop) (snd br)) (map (map_prod id (map compileError)) brs)
      \<or> (case map_option (map compileError) ow of None \<Rightarrow> False
          | Some fs \<Rightarrow> list_ex (\<lambda>f. f L inLoop) fs))"
| "compileError (SLoop skip ini cond iter label body) L inLoop =
     ((case label of None \<Rightarrow> False | Some l \<Rightarrow> l \<in> L)
      \<or> list_ex (\<lambda>f. f (case label of None \<Rightarrow> L | Some l \<Rightarrow> insert l L) True)
           (map compileError body))"
| "compileError (SBreak label) L inLoop =
     (case label of None \<Rightarrow> \<not> inLoop | Some l \<Rightarrow> l \<notin> L)"
| "compileError SContinue L inLoop = (\<not> inLoop)"
| "compileError SExit L inLoop = False"
| "compileError SOther L inLoop = True"

text \<open>The error values of these four kinds.\<close>

fun flowError :: "error \<Rightarrow> bool" where
  "flowError (DuplicateLabel l) = True"
| "flowError UndefLabel = True"
| "flowError UnexpectedBreak = True"
| "flowError UnexpectedContinue = True"
| "flowError UnknownStatementType = True"
| "flowError _ = False"

text \<open>
  A statement with an empty block: an If or Switch branch body, an \<open>otherwise\<close> block
  or a loop body that is the empty statement list, in the statement or nested in it.
  \<open>emptyOrAny\<close> takes the answers for the statements of a block.
\<close>

definition emptyOrAny :: "bool list \<Rightarrow> bool" where
  "emptyOrAny bs = (bs = [] \<or> list_ex (\<lambda>x. x) bs)"

primrec hasEmptyBlock :: "statement \<Rightarrow> bool" where
  "hasEmptyBlock (SExpression e a) = False"
| "hasEmptyBlock (SCall f ps bi a) = False"
| "hasEmptyBlock (SReturn v) = False"
| "hasEmptyBlock (SIf brs ow) =
     (list_ex (\<lambda>br. emptyOrAny (snd br)) (map (map_prod id (map hasEmptyBlock)) brs)
      \<or> (case map_option (map hasEmptyBlock) ow of None \<Rightarrow> False | Some bs \<Rightarrow> emptyOrAny bs))"
| "hasEmptyBlock (SSwitch p brs ow) =
     (list_ex (\<lambda>br. emptyOrAny (snd br)) (map (map_prod id (map hasEmptyBlock)) brs)
      \<or> (case map_option (map hasEmptyBlock) ow of None \<Rightarrow> False | Some bs \<Rightarrow> emptyOrAny bs))"
| "hasEmptyBlock (SLoop skip ini cond iter label body) = emptyOrAny (map hasEmptyBlock body)"
| "hasEmptyBlock (SBreak label) = False"
| "hasEmptyBlock SContinue = False"
| "hasEmptyBlock SExit = False"
| "hasEmptyBlock SOther = False"

text \<open>A flow node that is, or contains, a Block without nodes.\<close>

primrec emptyNBlock :: "flowNode \<Rightarrow> bool" where
  "emptyNBlock (NNormal r s n) = False"
| "emptyNBlock (NExternCall r s n) = False"
| "emptyNBlock (NReturn r s) = False"
| "emptyNBlock (NIf r s bs ow m n) =
     (list_ex (\<lambda>b. snd b) (map (map_prod id emptyNBlock) bs)
      \<or> (case map_option emptyNBlock ow of None \<Rightarrow> False | Some b \<Rightarrow> b))"
| "emptyNBlock (NSwitch r s bs ow m n) =
     (list_ex (\<lambda>b. snd b) (map (map_prod id emptyNBlock) bs)
      \<or> (case map_option emptyNBlock ow of None \<Rightarrow> False | Some b \<Rightarrow> b))"
| "emptyNBlock (NLoop r s b m n) = emptyNBlock b"
| "emptyNBlock (NLoopInitializer r l) = emptyNBlock l"
| "emptyNBlock (NJump r s n) = False"
| "emptyNBlock (NExit r s) = False"
| "emptyNBlock (NBlock r ns n m) = emptyOrAny (map emptyNBlock ns)"

text \<open>
  The state in which \<open>flowAnalyzePass\<close> lowers the program (the implicit return node
  has been created), and what the proofs below say of a lowering function: it leaves
  \<open>labelMap\<close> and \<open>breakableNodeStack\<close> as they were (\<open>keeps\<close>); in a state with the
  labels \<open>L\<close> and the loop nesting \<open>inLoop\<close> (\<open>inScope\<close>) it throws (\<open>failsIn\<close>) or
  returns a node (\<open>succeedsIn\<close>); what it throws is one of the four kinds
  (\<open>throwsFlow\<close>); the node it returns has an empty Block (\<open>yieldsEmpty\<close>).
\<close>

definition initialState :: lstate where
  "initialState = \<lparr>fresh = Suc 0, labelMap = Map.empty, breakableNodeStack = []\<rparr>"

definition keeps :: "(ref \<Rightarrow> flowNode lower) \<Rightarrow> bool" where
  "keeps f = (\<forall>successor st n st'. f successor st = Inr (n, st') \<longrightarrow>
     labelMap st' = labelMap st \<and> breakableNodeStack st' = breakableNodeStack st)"

definition inScope :: "lstate \<Rightarrow> string set \<Rightarrow> bool \<Rightarrow> bool" where
  "inScope st L inLoop = (dom (labelMap st) = L \<and> (breakableNodeStack st \<noteq> []) = inLoop)"

definition failsIn :: "(ref \<Rightarrow> flowNode lower) \<Rightarrow> string set \<Rightarrow> bool \<Rightarrow> bool" where
  "failsIn f L inLoop = (\<forall>successor st. inScope st L inLoop \<longrightarrow> (\<exists>e. f successor st = Inl e))"

definition succeedsIn :: "(ref \<Rightarrow> flowNode lower) \<Rightarrow> string set \<Rightarrow> bool \<Rightarrow> bool" where
  "succeedsIn f L inLoop =
     (\<forall>successor st. inScope st L inLoop \<longrightarrow> (\<exists>n st'. f successor st = Inr (n, st')))"

definition throwsFlow :: "(ref \<Rightarrow> flowNode lower) \<Rightarrow> bool" where
  "throwsFlow f = (\<forall>successor st e. f successor st = Inl e \<longrightarrow> flowError e)"

definition yieldsEmpty :: "(ref \<Rightarrow> flowNode lower) \<Rightarrow> bool" where
  "yieldsEmpty f = (\<forall>successor st n st'. f successor st = Inr (n, st') \<longrightarrow> emptyNBlock n)"

text \<open>Programs with one compile-time failure each, and a program whose only If
  branch has an empty body.\<close>

definition duplicateLabels :: "statement list" where
  "duplicateLabels =
     [SLoop False None None None (Some ''a'')
        [SLoop False None None None (Some ''a'') [SExit]]]"

definition breakOutside :: "statement list" where
  "breakOutside = [SIf [(pureExpr (\<lambda>sc. VBool True), [SBreak None])] None]"

definition continueOutside :: "statement list" where
  "continueOutside = [SContinue, SExit]"

definition breakUnknownLabel :: "statement list" where
  "breakUnknownLabel =
     [SLoop False None None None (Some ''a'') [SBreak (Some ''b'')]]"

definition unknownKind :: "statement list" where
  "unknownKind = [SExit, SOther]"

definition emptyBranch :: "statement list" where
  "emptyBranch = [SIf [(pureExpr (\<lambda>sc. VBool True), [])] None, SExit]"

section \<open>A callee on the call stack\<close>

text \<open>
  \<open>calleeRuns I d c c'\<close>: from \<open>c\<close> the machine reaches \<open>c'\<close> by transitions during
  all of which the call stack is higher than \<open>d\<close>, that is, while the frames pushed
  above the lowest \<open>d\<close> frames are still running. \<open>framesBelow d c\<close> are the lowest
  \<open>d\<close> frames of the stack.
\<close>

inductive calleeRuns :: "interpreter \<Rightarrow> nat \<Rightarrow> executionContext \<Rightarrow> executionContext \<Rightarrow> bool"
  for I :: interpreter and d :: nat where
  start: "d < length (callStack c) \<Longrightarrow> calleeRuns I d c c"
| step: "calleeRuns I d c c1 \<Longrightarrow> machineStep I fuel c1 = Ok (Inl c2)
         \<Longrightarrow> d < length (callStack c2) \<Longrightarrow> calleeRuns I d c c2"

definition framesBelow :: "nat \<Rightarrow> executionContext \<Rightarrow> iterator list" where
  "framesBelow d c = drop (length (callStack c) - d) (callStack c)"

text \<open>An interpreter whose global function \<open>nop\<close> is a single Return step, and a
  program of two steps: the call of \<open>nop\<close>, then Return.\<close>

definition nopExecutable :: executable where
  "nopExecutable = [Some (returnStep None)]"

definition callingExecutable :: executable where
  "callingExecutable = [Some (externCallStep ''nop'' [] 1), Some (returnStep None)]"

definition callingInterpreter :: interpreter where
  "callingInterpreter =
     \<lparr>builtInFunctionMap = Map.empty, globalFunctionMap = [''nop'' \<mapsto> nopExecutable]\<rparr>"

definition callingContext :: executionContext where
  "callingContext = \<lparr>ctxEnv = [], callStack = [newIterator callingExecutable []]\<rparr>"

section \<open>Switch statements in the flow graph\<close>

text \<open>
  \<open>blockNext\<close> is the \<open>next\<close> of a Block. \<open>switchSuccessors\<close> lists, for every Switch node
  of a tree, its \<open>next\<close> and the \<open>next\<close> of each of its branch blocks;
  \<open>switchSuccessorIds\<close> gives the \<open>id\<close> fields of these nodes in the flow graph of a
  program. In a \<open>chained\<close> tree no branch block of a Switch has the \<open>next\<close> of the Switch as its own.
  \<open>allocates f\<close>: whenever \<open>f\<close> is given a successor that exists already, the node it
  returns is an object created by this call, and the tree below it is chained.
\<close>

fun blockNext :: "flowNode \<Rightarrow> ref option" where
  "blockNext (NBlock r ns n m) = Some n"
| "blockNext _ = None"

primrec switchSuccessors :: "flowNode \<Rightarrow> (ref \<times> ref option list) list" where
  "switchSuccessors (NNormal r s n) = []"
| "switchSuccessors (NExternCall r s n) = []"
| "switchSuccessors (NReturn r s) = []"
| "switchSuccessors (NIf r s bs ow m n) =
     concat (map snd (map (map_prod id switchSuccessors) bs))
     @ (case map_option switchSuccessors ow of None \<Rightarrow> [] | Some xs \<Rightarrow> xs)"
| "switchSuccessors (NSwitch r s bs ow m n) =
     (n, map (\<lambda>b. blockNext (snd b)) bs)
     # concat (map snd (map (map_prod id switchSuccessors) bs))
     @ (case map_option switchSuccessors ow of None \<Rightarrow> [] | Some xs \<Rightarrow> xs)"
| "switchSuccessors (NLoop r s b m n) = switchSuccessors b"
| "switchSuccessors (NLoopInitializer r l) = switchSuccessors l"
| "switchSuccessors (NJump r s n) = []"
| "switchSuccessors (NExit r s) = []"
| "switchSuccessors (NBlock r ns n m) = concat (map switchSuccessors ns)"

definition switchSuccessorIds :: "statement list \<Rightarrow> (int \<times> int option list) list option" where
  "switchSuccessorIds program =
     (case flowAnalyzePass program of Inl e \<Rightarrow> None
      | Inr (root, ids) \<Rightarrow>
          Some (map (\<lambda>sw. (ids (fst sw), map (map_option ids) (snd sw))) (switchSuccessors root)))"

definition chained :: "flowNode \<Rightarrow> bool" where
  "chained n = (\<forall>sw\<in>set (switchSuccessors n). Some (fst sw) \<notin> set (snd sw))"

definition allocates :: "(ref \<Rightarrow> flowNode lower) \<Rightarrow> bool" where
  "allocates f = (\<forall>successor st n st'. successor < fresh st \<longrightarrow> f successor st = Inr (n, st') \<longrightarrow>
     fresh st \<le> refOf n \<and> refOf n < fresh st' \<and> chained n)"

text \<open>
  \<open>switchFused v\<close> is
  \<open>local.k = 0; switch (v) { case 1: local.k = local.k + 1  case 2: local.k = local.k + 10 }
  return local.k\<close>, a program that is fused into one step. \<open>switchSingleFused\<close> is
  \<open>local.k = 0; switch (1) { case 1: local.k = local.k + 1 }  return local.k\<close>, fused
  as well; \<open>switchStepped\<close> is the same program with a call of \<open>nop\<close> at the end of
  the branch, which makes the Switch a step of its own.
\<close>

definition switchOn :: "int \<Rightarrow> statement" where
  "switchOn v =
     SSwitch (pureExpr (\<lambda>sc. VNum v))
       [(pureExpr (\<lambda>sc. VNum 1),
           [SExpression (assignLocal ''k'' (\<lambda>sc. VNum (localNum ''k'' sc + 1))) False]),
        (pureExpr (\<lambda>sc. VNum 2),
           [SExpression (assignLocal ''k'' (\<lambda>sc. VNum (localNum ''k'' sc + 10))) False])]
       None"

definition switchFused :: "int \<Rightarrow> statement list" where
  "switchFused v =
     [SExpression (assignLocal ''k'' (\<lambda>sc. VNum 0)) False, switchOn v, returnLocal ''k'']"

definition switchStepped :: "statement list" where
  "switchStepped =
     [SExpression (assignLocal ''k'' (\<lambda>sc. VNum 0)) False,
      SSwitch (pureExpr (\<lambda>sc. VNum 1))
        [(pureExpr (\<lambda>sc. VNum 1),
            [SExpression (assignLocal ''k'' (\<lambda>sc. VNum (localNum ''k'' sc + 1))) False, callNop])]
        None,
      returnLocal ''k'']"

definition switchSingleFused :: "statement list" where
  "switchSingleFused =
     [SExpression (assignLocal ''k'' (\<lambda>sc. VNum 0)) False,
      SSwitch (pureExpr (\<lambda>sc. VNum 1))
        [(pureExpr (\<lambda>sc. VNum 1),
            [SExpression (assignLocal ''k'' (\<lambda>sc. VNum (localNum ''k'' sc + 1))) False])]
        None,
      returnLocal ''k'']"

section \<open>Flow analysis: the shape of the root\<close>

lemma toNodes_length:
  "toNodes fs successor st = Inr ((ns, l), st') \<Longrightarrow> length ns = length fs"
proof (induction fs arbitrary: ns l st')
  case Nil
  then show ?case by simp
next
  case (Cons f fs)
  then show ?case
    by (auto split: sum.splits prod.splits)
qed

lemma toBlockFlowNode_shape:
  assumes "toBlockFlowNode fs successor st = Inr (n, st')"
  shows "\<exists>r ns m. n = NBlock r ns successor m \<and> length ns = length fs"
  using assms
  by (auto simp: toBlockFlowNode_def alloc_def split: sum.splits prod.splits dest: toNodes_length)

lemma flowAnalyzePass_root:
  assumes "flowAnalyzePass p = Inr (root, ids)"
  shows "\<exists>r ns nx m. root = NBlock r (ns @ [NReturn nx implicitReturnStatement]) nx m
           \<and> length ns = length p"
proof -
  from assms obtain root0 st2 where
    low: "toBlockFlowNode (map toFlowNode p) 0
            \<lparr>fresh = Suc 0, labelMap = Map.empty, breakableNodeStack = []\<rparr> = Inr (root0, st2)"
    and root: "root = pushNode root0 (NReturn 0 implicitReturnStatement)"
    by (auto simp: flowAnalyzePass_def alloc_def Let_def split: sum.splits prod.splits)
  from toBlockFlowNode_shape [OF low] obtain r ns m where
    "root0 = NBlock r ns 0 m" "length ns = length p" by auto
  with root show ?thesis by (auto simp: pushNode_def)
qed

section \<open>The empty program\<close>

lemma compile_empty:
  "compile [] g = Inr [Some (returnStep None)]"
  by (simp add: compile_def flowAnalyzePass_def alloc_def toBlockFlowNode_def pushNode_def
      implicitReturnStatement_def addNode_def nodeGenPass_def splitArray_def splitStep_def
      addExec_def)

lemma exec_empty:
  "interpreterExec I [] params environment (Suc (Suc k)) = Ok VUndefined"
  by (simp add: interpreterExec_def interpreterCompile_def compile_empty executableExec_def
      machineStep_def iteratorNext_def newIterator_def execNode_def returnStep_def runResult_def)

text \<open>
  Claim C9. Whenever flow analysis succeeds, the root block it returns holds the
  lowered statements of the program, one node each, followed by one more node: the
  implicit Return (a Return statement without value), which is also the root's \<open>next\<close>.
  And \<open>exec\<close> of the empty program, for every interpreter, parameters and environment
  and with any fuel of two or more, resolves to \<open>undefined\<close>, which is not the exit
  sentinel.
\<close>

theorem C9_implicit_return:
  "(flowAnalyzePass p = Inr (root, ids) \<longrightarrow>
      (\<exists>r ns nx m. root = NBlock r (ns @ [NReturn nx implicitReturnStatement]) nx m
         \<and> length ns = length p))
   \<and> implicitReturnStatement = SReturn None
   \<and> interpreterExec I [] params environment (Suc (Suc k)) = Ok VUndefined
   \<and> interpreterExec I [] params environment (Suc (Suc k)) \<noteq> Ok EXIT_SIGNAL"
  using flowAnalyzePass_root [of p root ids] exec_empty [of I params environment k]
  by (simp add: implicitReturnStatement_def)

theorem C9_implicit_return_witness:
  "\<exists>root ids. flowAnalyzePass [SExit] = Inr (root, ids)
     \<and> (\<exists>r ns nx m. root = NBlock r (ns @ [NReturn nx implicitReturnStatement]) nx m
           \<and> length ns = length [SExit])
     \<and> interpreterExec noFunctions [] [] [] 2 = Ok VUndefined"
proof -
  obtain root ids where fa: "flowAnalyzePass [SExit] = Inr (root, ids)"
    by (simp add: flowAnalyzePass_def alloc_def toBlockFlowNode_def pushNode_def addNode_def)
  have two: "(2::nat) = Suc (Suc 0)" by simp
  from C9_implicit_return [of "[SExit]" root ids noFunctions "[]" "[]" 0] fa
  show ?thesis unfolding two by blast
qed

section \<open>Exit across calls\<close>

lemma exit_at_top_level:
  "newInterpreterExec exitLang [SExit] [] [] 20 = Ok EXIT_SIGNAL"
  by code_simp

text \<open>
  Claim C1 says that a program reaching Exit at any call depth makes the top-level
  \<open>exec\<close> resolve to the exit sentinel, the callers not stepping on. In scenario 6
  (\<open>exitMain\<close> calls \<open>g\<close>, \<open>g\<close> calls \<open>h\<close>, \<open>h\<close> exits) the code instead lets \<open>g\<close> go on
  with its call of \<open>echo\<close> and the main program with its Return: \<open>exec\<close> resolves to
  the text \<open>echo\<close> stored, not to the exit sentinel.
\<close>

theorem C1_exit_dropped_by_caller:
  "newInterpreterExec exitLang exitMain [] [] 20 = Ok (VStr ''after h'')"
  by code_simp

section \<open>Break in a loop of single steps\<close>

text \<open>
  Claim C2 says that the Jump of a break has the loop's outer successor as \<open>next\<close>. In
  \<open>breakLoop\<close> the loop head has id 1 and the loop's \<open>next\<close> (the Return after the loop)
  id 5; the only Jump is the one of the break, and its \<open>next\<close> has id 1, the loop head.
  Run as single steps, the break therefore goes back to the loop head and the loop
  ends only when its condition fails: the program returns 3, not 1.
\<close>

theorem C2_break_targets_loop_head:
  "(case flowAnalyzePass breakLoop of Inl e \<Rightarrow> False
    | Inr (root, ids) \<Rightarrow>
        map (\<lambda>j. (isBreak (fst j), ids (snd j))) (jumpTargets root) = [(True, 1)]
        \<and> map (\<lambda>l. (ids (fst l), ids (snd l))) (loopNodes root) = [(1, 5)])
   \<and> newInterpreterExec scenarioLang breakLoop [] [] 40 = Ok (VNum 3)"
  by code_simp

section \<open>Literal parameters of a built-in in a fused step\<close>

text \<open>
  Claim C3 says that a fused step passes literal parameters to a built-in unchanged,
  as the single step does. For the string literal \<open>"1"\<close> the fused program hands the
  built-in the number 1, the program of single steps the string \<open>"1"\<close>.
\<close>

theorem C3_fused_string_literal:
  "newInterpreterExec scenarioLang echoFused [] [] 20 = Ok (VNum 1)
   \<and> newInterpreterExec scenarioLang echoStepped [] [] 20 = Ok (VStr ''1'')"
  by code_simp

section \<open>A loop without condition\<close>

text \<open>
  Claim C5 says that the loop-head step of a loop without condition moves to the body
  on every evaluation. The step moves to the loop's successor instead, whatever the
  iterator and the scope are, and \<open>noConditionLoop\<close> returns 0: its body never ran.
\<close>

theorem C5_absent_condition_leaves_loop:
  "loopStep iterator None bodyId nextId fuel sc
     = Ok (OpMove nextId, case iterator of None \<Rightarrow> sc | Some it \<Rightarrow> snd (it sc))
   \<and> newInterpreterExec scenarioLang noConditionLoop [] [] 20 = Ok (VNum 0)"
proof
  show "loopStep iterator None bodyId nextId fuel sc
     = Ok (OpMove nextId, case iterator of None \<Rightarrow> sc | Some it \<Rightarrow> snd (it sc))"
    by (simp add: loopStep_def)
  show "newInterpreterExec scenarioLang noConditionLoop [] [] 20 = Ok (VNum 0)"
    by code_simp
qed

section \<open>The counting loop\<close>

lemma counting_loop_fused:
  "newInterpreterExec scenarioLang countingLoop [] [] 40 = Ok (VNum 45)"
  by code_simp

text \<open>
  Claim C6 says that the body of a loop with initializer \<open>i := 0\<close>, condition \<open>i < N\<close>
  and iterator \<open>i++\<close> executes exactly \<open>N\<close> times. Between two calls of a global
  function the loop is run as single steps, and for \<open>N = 3\<close> its body executes twice.
\<close>

theorem C6_stepped_loop_one_short:
  "newInterpreterExec scenarioLang (countingCalls 3) [] [] 40 = Ok (VNum 2)"
  by code_simp

section \<open>Lowering leaves the label map and the loop stack as they were\<close>

lemma keepsD:
  "keeps f \<Longrightarrow> f successor st = Inr (n, st') \<Longrightarrow>
     labelMap st' = labelMap st \<and> breakableNodeStack st' = breakableNodeStack st"
  unfolding keeps_def by blast

lemma toNodes_keeps:
  assumes "\<forall>f\<in>set fs. keeps f" and "toNodes fs successor st = Inr ((ns, l), st')"
  shows "labelMap st' = labelMap st \<and> breakableNodeStack st' = breakableNodeStack st"
  using assms
proof (induction fs arbitrary: ns l st')
  case Nil
  then show ?case by simp
next
  case (Cons f fs)
  from Cons.prems(2) obtain ns1 l1 st1 n where
    tl: "toNodes fs successor st = Inr ((ns1, l1), st1)" and hd: "f l1 st1 = Inr (n, st')"
    by (auto split: sum.splits prod.splits)
  from Cons.IH [OF _ tl] Cons.prems(1)
  have "labelMap st1 = labelMap st \<and> breakableNodeStack st1 = breakableNodeStack st" by simp
  moreover from Cons.prems(1) hd
  have "labelMap st' = labelMap st1 \<and> breakableNodeStack st' = breakableNodeStack st1"
    by (auto dest: keepsD)
  ultimately show ?case by simp
qed

lemma toBlockFlowNode_keeps:
  assumes "\<forall>f\<in>set fs. keeps f" and "toBlockFlowNode fs successor st = Inr (n, st')"
  shows "labelMap st' = labelMap st \<and> breakableNodeStack st' = breakableNodeStack st"
proof -
  from assms(2) obtain ns l st1 where tn: "toNodes fs successor st = Inr ((ns, l), st1)"
    and st': "st' = st1\<lparr>fresh := Suc (fresh st1)\<rparr>"
    by (auto simp: toBlockFlowNode_def alloc_def split: sum.splits prod.splits)
  from toNodes_keeps [OF assms(1) tn] st' show ?thesis by simp
qed

lemma toOtherwise_keeps:
  assumes "\<forall>fs\<in>set_option ow. \<forall>f\<in>set fs. keeps f"
    and "toOtherwise ow successor st = Inr (n, st')"
  shows "labelMap st' = labelMap st \<and> breakableNodeStack st' = breakableNodeStack st"
  using assms
  by (cases ow) (auto simp: toOtherwise_def split: sum.splits prod.splits
      dest!: toBlockFlowNode_keeps [rotated])

lemma ifBranches_keeps:
  assumes "\<forall>br\<in>set brs. \<forall>f\<in>set (snd br). keeps f"
    and "ifBranches brs successor st = Inr (bs, st')"
  shows "labelMap st' = labelMap st \<and> breakableNodeStack st' = breakableNodeStack st"
  using assms
proof (induction brs arbitrary: st bs)
  case Nil
  then show ?case by simp
next
  case (Cons br brs)
  from Cons.prems(2) obtain n st1 bs1 where
    b: "toBlockFlowNode (snd br) successor st = Inr (n, st1)"
    and r: "ifBranches brs successor st1 = Inr (bs1, st')"
    by (auto split: sum.splits prod.splits)
  from toBlockFlowNode_keeps [OF _ b] Cons.prems(1)
  have "labelMap st1 = labelMap st \<and> breakableNodeStack st1 = breakableNodeStack st" by simp
  moreover from Cons.IH [OF _ r] Cons.prems(1)
  have "labelMap st' = labelMap st1 \<and> breakableNodeStack st' = breakableNodeStack st1" by simp
  ultimately show ?case by simp
qed

lemma switchBranches_keeps:
  assumes "\<forall>br\<in>set brs. \<forall>f\<in>set (snd br). keeps f"
    and "switchBranches brs last0 st = Inr ((bs, l), st')"
  shows "labelMap st' = labelMap st \<and> breakableNodeStack st' = breakableNodeStack st"
  using assms
proof (induction brs arbitrary: st' bs l)
  case Nil
  then show ?case by simp
next
  case (Cons br brs)
  from Cons.prems(2) obtain bs1 l1 st1 ch st2 n where
    r: "switchBranches brs last0 st = Inr ((bs1, l1), st1)"
    and c: "toBlockFlowNode (snd br) l1 st1 = Inr (ch, st2)"
    and b: "toBlockFlowNode (snd br) (refOf ch) st2 = Inr (n, st')"
    by (auto split: sum.splits prod.splits)
  from Cons.IH [OF _ r] Cons.prems(1)
  have "labelMap st1 = labelMap st \<and> breakableNodeStack st1 = breakableNodeStack st" by simp
  moreover from toBlockFlowNode_keeps [OF _ c] Cons.prems(1)
  have "labelMap st2 = labelMap st1 \<and> breakableNodeStack st2 = breakableNodeStack st1" by simp
  moreover from toBlockFlowNode_keeps [OF _ b] Cons.prems(1)
  have "labelMap st' = labelMap st2 \<and> breakableNodeStack st' = breakableNodeStack st2" by simp
  ultimately show ?case by simp
qed

lemma toLoop_keeps:
  assumes "\<forall>f\<in>set body. keeps f"
    and "toLoop statement skip ini label body successor st = Inr (n, st')"
  shows "labelMap st' = labelMap st \<and> breakableNodeStack st' = breakableNodeStack st"
proof -
  from assms(2) obtain ph st1 where ph: "toBlockFlowNode [] successor st = Inr (ph, st1)"
    by (auto simp: toLoop_def split: sum.splits prod.splits)
  then have st1: "st1 = st\<lparr>fresh := Suc (fresh st)\<rparr>"
    by (auto simp: toBlockFlowNode_def alloc_def)
  define loopNode where "loopNode = fresh st1"
  define st2 where "st2 = st1\<lparr>fresh := Suc (fresh st1)\<rparr>"
  from assms(2) ph obtain st3 bodyNode st5 where
    reg: "registerLabel label loopNode st2 = Inr st3"
    and body: "toBlockFlowNode body loopNode
                 (st3\<lparr>breakableNodeStack := loopNode # breakableNodeStack st3\<rparr>) = Inr (bodyNode, st5)"
    and fin: "labelMap st' = labelMap (unregisterLabel label st5)"
             "breakableNodeStack st' = tl (breakableNodeStack (unregisterLabel label st5))"
    by (auto simp: toLoop_def alloc_def loopNode_def st2_def Let_def
        split: sum.splits prod.splits option.splits if_splits)
  from toBlockFlowNode_keeps [OF assms(1) body]
  have k: "labelMap st5 = labelMap st3" "breakableNodeStack st5 = loopNode # breakableNodeStack st3"
    by simp_all
  from reg have m3: "labelMap (unregisterLabel label st3) = labelMap st2"
      and s3: "breakableNodeStack st3 = breakableNodeStack st2"
    by (cases label; auto simp: registerLabel_def unregisterLabel_def split: if_splits)+
  have "labelMap (unregisterLabel label st5) = labelMap (unregisterLabel label st3)"
    using k(1) by (cases label) (auto simp: unregisterLabel_def)
  moreover have "breakableNodeStack (unregisterLabel label st5) = breakableNodeStack st5"
    by (cases label) (auto simp: unregisterLabel_def)
  ultimately show ?thesis using fin k s3 m3 st1 by (simp add: st2_def)
qed

lemma toFlowNode_keeps: "keeps (toFlowNode s)"
proof (induction s)
  case (SIf brs ow)
  have b: "\<forall>br\<in>set (map (map_prod id (map toFlowNode)) brs). \<forall>f\<in>set (snd br). keeps f"
    using SIf.IH(1) by (auto simp: prod_set_defs)
  have o: "\<forall>fs\<in>set_option (map_option (map toFlowNode) ow). \<forall>f\<in>set fs. keeps f"
    using SIf.IH(2) by (cases ow) auto
  show ?case
    unfolding keeps_def
    by (auto simp: alloc_def split: sum.splits prod.splits
        dest!: ifBranches_keeps [OF b] toOtherwise_keeps [OF o])
next
  case (SSwitch p brs ow)
  have b: "\<forall>br\<in>set (map (map_prod id (map toFlowNode)) brs). \<forall>f\<in>set (snd br). keeps f"
    using SSwitch.IH(1) by (auto simp: prod_set_defs)
  have o: "\<forall>fs\<in>set_option (map_option (map toFlowNode) ow). \<forall>f\<in>set fs. keeps f"
    using SSwitch.IH(2) by (cases ow) auto
  show ?case
    unfolding keeps_def
    by (auto simp: alloc_def split: sum.splits prod.splits
        dest!: switchBranches_keeps [OF b] toOtherwise_keeps [OF o])
next
  case (SLoop skip ini cond iter label body)
  have b: "\<forall>f\<in>set (map toFlowNode body). keeps f" using SLoop.IH by auto
  show ?case
    unfolding keeps_def using toLoop_keeps [OF b] by auto
qed (auto simp: keeps_def alloc_def toBreak_def toContinue_def split: option.splits list.splits if_splits)

section \<open>Lowering throws on a compile-time error\<close>

lemma inScope_eq:
  "labelMap st' = labelMap st \<Longrightarrow> breakableNodeStack st' = breakableNodeStack st \<Longrightarrow>
     inScope st' L b = inScope st L b"
  by (simp add: inScope_def)

lemma failsInD: "failsIn f L b \<Longrightarrow> inScope st L b \<Longrightarrow> \<exists>e. f successor st = Inl e"
  unfolding failsIn_def by blast

lemma toNodes_fails:
  assumes "\<forall>f\<in>set fs. keeps f" and "\<exists>f\<in>set fs. failsIn f L b" and "inScope st L b"
  shows "\<exists>e. toNodes fs successor st = Inl e"
  using assms
proof (induction fs)
  case Nil
  then show ?case by simp
next
  case (Cons f fs)
  show ?case
  proof (cases "toNodes fs successor st")
    case (Inl e)
    then show ?thesis by simp
  next
    case (Inr r)
    obtain ns l st1 where r: "r = ((ns, l), st1)" by (cases r) auto
    from toNodes_keeps [OF _ Inr [unfolded r]] Cons.prems(1)
    have same: "labelMap st1 = labelMap st" "breakableNodeStack st1 = breakableNodeStack st"
      by simp_all
    have "failsIn f L b"
    proof (rule ccontr)
      assume "\<not> failsIn f L b"
      with Cons.prems(2) have "\<exists>f\<in>set fs. failsIn f L b" by auto
      from Cons.IH [OF _ this Cons.prems(3)] Cons.prems(1) Inr show False by simp
    qed
    moreover have "inScope st1 L b" using Cons.prems(3) same by (simp add: inScope_def)
    ultimately obtain e where "f l st1 = Inl e" by (blast dest: failsInD)
    with Inr r show ?thesis by simp
  qed
qed

lemma toBlockFlowNode_fails:
  assumes "\<forall>f\<in>set fs. keeps f" and "\<exists>f\<in>set fs. failsIn f L b" and "inScope st L b"
  shows "\<exists>e. toBlockFlowNode fs successor st = Inl e"
  using toNodes_fails [OF assms, of successor] by (auto simp: toBlockFlowNode_def)

lemma ifBranches_fails:
  assumes "\<forall>br\<in>set brs. \<forall>f\<in>set (snd br). keeps f"
    and "\<exists>br\<in>set brs. \<exists>f\<in>set (snd br). failsIn f L b" and "inScope st L b"
  shows "\<exists>e. ifBranches brs successor st = Inl e"
  using assms
proof (induction brs arbitrary: st)
  case Nil
  then show ?case by simp
next
  case (Cons br brs)
  show ?case
  proof (cases "toBlockFlowNode (snd br) successor st")
    case (Inl e)
    then show ?thesis by simp
  next
    case (Inr r)
    obtain n st1 where r: "r = (n, st1)" by (cases r) auto
    from toBlockFlowNode_keeps [OF _ Inr [unfolded r]] Cons.prems(1)
    have sc: "inScope st1 L b" using Cons.prems(3) by (simp add: inScope_def)
    have "\<not> (\<exists>f\<in>set (snd br). failsIn f L b)"
      using toBlockFlowNode_fails [OF _ _ Cons.prems(3), of "snd br" successor] Cons.prems(1) Inr
      by auto
    with Cons.prems(2) have "\<exists>br\<in>set brs. \<exists>f\<in>set (snd br). failsIn f L b" by auto
    from Cons.IH [OF _ this sc] Cons.prems(1) obtain e where "ifBranches brs successor st1 = Inl e"
      by auto
    with Inr r show ?thesis by simp
  qed
qed

lemma switchBranches_fails:
  assumes "\<forall>br\<in>set brs. \<forall>f\<in>set (snd br). keeps f"
    and "\<exists>br\<in>set brs. \<exists>f\<in>set (snd br). failsIn f L b" and "inScope st L b"
  shows "\<exists>e. switchBranches brs last0 st = Inl e"
  using assms
proof (induction brs)
  case Nil
  then show ?case by simp
next
  case (Cons br brs)
  show ?case
  proof (cases "switchBranches brs last0 st")
    case (Inl e)
    then show ?thesis by simp
  next
    case (Inr r)
    obtain bs l st1 where r: "r = ((bs, l), st1)" by (cases r) auto
    from switchBranches_keeps [OF _ Inr [unfolded r]] Cons.prems(1)
    have sc: "inScope st1 L b" using Cons.prems(3) by (simp add: inScope_def)
    have "\<exists>f\<in>set (snd br). failsIn f L b"
    proof (rule ccontr)
      assume "\<not> (\<exists>f\<in>set (snd br). failsIn f L b)"
      with Cons.prems(2) have "\<exists>br\<in>set brs. \<exists>f\<in>set (snd br). failsIn f L b" by auto
      from Cons.IH [OF _ this Cons.prems(3)] Cons.prems(1) Inr show False by simp
    qed
    from toBlockFlowNode_fails [OF _ this sc, of l] Cons.prems(1)
    obtain e where "toBlockFlowNode (snd br) l st1 = Inl e" by auto
    with Inr r show ?thesis by simp
  qed
qed

lemma toOtherwise_fails:
  assumes "\<forall>f\<in>set fs. keeps f" and "\<exists>f\<in>set fs. failsIn f L b" and "inScope st L b"
  shows "\<exists>e. toOtherwise (Some fs) successor st = Inl e"
  using toBlockFlowNode_fails [OF assms, of successor] by (auto simp: toOtherwise_def)

lemma toLoop_fails:
  assumes "\<forall>f\<in>set body. keeps f"
    and "(case label of None \<Rightarrow> False | Some l \<Rightarrow> l \<in> L)
         \<or> (\<exists>f\<in>set body. failsIn f (case label of None \<Rightarrow> L | Some l \<Rightarrow> insert l L) True)"
    and "inScope st L b"
  shows "\<exists>e. toLoop statement skip ini label body successor st = Inl e"
proof (cases "case label of None \<Rightarrow> False | Some l \<Rightarrow> l \<in> L")
  case True
  then obtain l where l: "label = Some l" "l \<in> L" by (cases label) auto
  with assms(3) have "labelMap st l \<noteq> None" by (auto simp: inScope_def)
  with l show ?thesis
    by (auto simp: toLoop_def toBlockFlowNode_def alloc_def registerLabel_def)
next
  case False
  with assms(2) have bd: "\<exists>f\<in>set body. failsIn f (case label of None \<Rightarrow> L | Some l \<Rightarrow> insert l L) True"
    by simp
  show ?thesis
  proof (cases "registerLabel label (Suc (fresh st)) (st\<lparr>fresh := Suc (Suc (fresh st))\<rparr>)")
    case (Inl e)
    then show ?thesis by (simp add: toLoop_def toBlockFlowNode_def alloc_def)
  next
    case (Inr st3)
    have "inScope (st3\<lparr>breakableNodeStack := Suc (fresh st) # breakableNodeStack st3\<rparr>)
            (case label of None \<Rightarrow> L | Some l \<Rightarrow> insert l L) True"
      using Inr assms(3)
      by (cases label) (auto simp: registerLabel_def inScope_def split: if_splits)
    from toBlockFlowNode_fails [OF assms(1) bd this, of "Suc (fresh st)"] obtain e where
      "toBlockFlowNode body (Suc (fresh st))
         (st3\<lparr>breakableNodeStack := Suc (fresh st) # breakableNodeStack st3\<rparr>) = Inl e" by auto
    with Inr show ?thesis by (simp add: toLoop_def toBlockFlowNode_def alloc_def)
  qed
qed

lemma list_ex_funs: "list_ex (\<lambda>f. f L b) (map g xs) = (\<exists>x\<in>set xs. g x L b)"
  by (simp add: list_ex_iff)

lemma list_ex_branches:
  "list_ex (\<lambda>br. list_ex (\<lambda>f. f L b) (snd br)) (map (map_prod id (map g)) brs)
     = (\<exists>br\<in>set brs. \<exists>x\<in>set (snd br). g x L b)"
  by (induction brs) (auto simp: list_ex_iff)

lemma compileError_If:
  "compileError (SIf brs ow) L b =
     ((\<exists>br\<in>set brs. \<exists>s\<in>set (snd br). compileError s L b)
      \<or> (\<exists>body. ow = Some body \<and> (\<exists>s\<in>set body. compileError s L b)))"
  by (cases ow) (simp_all add: list_ex_branches list_ex_funs)

lemma compileError_Switch:
  "compileError (SSwitch p brs ow) L b =
     ((\<exists>br\<in>set brs. \<exists>s\<in>set (snd br). compileError s L b)
      \<or> (\<exists>body. ow = Some body \<and> (\<exists>s\<in>set body. compileError s L b)))"
  by (cases ow) (simp_all add: list_ex_branches list_ex_funs)

lemma compileError_Loop:
  "compileError (SLoop skip ini cond iter label body) L b =
     ((case label of None \<Rightarrow> False | Some l \<Rightarrow> l \<in> L)
      \<or> (\<exists>s\<in>set body. compileError s (case label of None \<Rightarrow> L | Some l \<Rightarrow> insert l L) True))"
  by (simp add: list_ex_funs)

lemma branches_keep:
  "\<forall>br\<in>set (map (map_prod id (map toFlowNode)) brs). \<forall>f\<in>set (snd br). keeps f"
  by (induction brs) (auto simp: toFlowNode_keeps)

lemma otherwise_keeps:
  "\<forall>fs\<in>set_option (map_option (map toFlowNode) ow). \<forall>f\<in>set fs. keeps f"
  by (cases ow) (auto simp: toFlowNode_keeps)

lemma branches_fail:
  assumes "\<exists>br\<in>set brs. \<exists>s\<in>set (snd br). failsIn (toFlowNode s) L b"
  shows "\<exists>br\<in>set (map (map_prod id (map toFlowNode)) brs). \<exists>f\<in>set (snd br). failsIn f L b"
proof -
  from assms obtain br s where "br \<in> set brs" "s \<in> set (snd br)" "failsIn (toFlowNode s) L b"
    by blast
  then have "map_prod id (map toFlowNode) br \<in> set (map (map_prod id (map toFlowNode)) brs)"
    and "toFlowNode s \<in> set (snd (map_prod id (map toFlowNode) br))"
    by (cases br; simp; blast)+
  with \<open>failsIn (toFlowNode s) L b\<close> show ?thesis by blast
qed

lemma If_fail_branches:
  "ifBranches (map (map_prod id (map toFlowNode)) brs) successor st = Inl e \<Longrightarrow>
     toFlowNode (SIf brs ow) successor st = Inl e"
  by simp

lemma If_fail_otherwise:
  "ifBranches (map (map_prod id (map toFlowNode)) brs) successor st = Inr (bs, st1) \<Longrightarrow>
   toOtherwise (map_option (map toFlowNode) ow) successor st1 = Inl e \<Longrightarrow>
     toFlowNode (SIf brs ow) successor st = Inl e"
  by simp

lemma Switch_fail_otherwise:
  "toOtherwise (map_option (map toFlowNode) ow) successor st = Inl e \<Longrightarrow>
     toFlowNode (SSwitch p brs ow) successor st = Inl e"
  by simp

lemma Switch_fail_branches:
  "toOtherwise (map_option (map toFlowNode) ow) successor st = Inr (otherwise, st1) \<Longrightarrow>
   switchBranches (map (map_prod id (map toFlowNode)) brs)
     (case otherwise of None \<Rightarrow> successor | Some n \<Rightarrow> refOf n) st1 = Inl e \<Longrightarrow>
     toFlowNode (SSwitch p brs ow) successor st = Inl e"
  by simp

lemma toFlowNode_fails: "compileError s L b \<Longrightarrow> failsIn (toFlowNode s) L b"
proof (induction s arbitrary: L b)
  case (SIf brs ow)
  show ?case
    unfolding failsIn_def
  proof (intro allI impI)
    fix successor st
    assume sc: "inScope st L b"
    show "\<exists>e. toFlowNode (SIf brs ow) successor st = Inl e"
    proof (cases "ifBranches (map (map_prod id (map toFlowNode)) brs) successor st")
      case (Inl e)
      then show ?thesis by (blast intro: If_fail_branches)
    next
      case (Inr r)
      obtain bs st1 where r: "r = (bs, st1)" by (cases r) auto
      from ifBranches_keeps [OF branches_keep Inr [unfolded r]] sc have sc1: "inScope st1 L b"
        by (simp add: inScope_def)
      have nb: "\<not> (\<exists>br\<in>set brs. \<exists>s\<in>set (snd br). compileError s L b)"
      proof
        assume "\<exists>br\<in>set brs. \<exists>s\<in>set (snd br). compileError s L b"
        then have "\<exists>br\<in>set brs. \<exists>s\<in>set (snd br). failsIn (toFlowNode s) L b"
          using SIf.IH(1) by (metis prod_set_simps(2) prod.collapse singletonI)
        from ifBranches_fails [OF branches_keep branches_fail [OF this] sc, of successor] Inr
        show False by simp
      qed
      with SIf.prems obtain body where ow: "ow = Some body" "\<exists>s\<in>set body. compileError s L b"
        unfolding compileError_If by blast
      then obtain s where s: "s \<in> set body" "compileError s L b" by blast
      have "body \<in> set_option ow" using ow by simp
      from SIf.IH(2) [OF this s] s(1)
      have "\<exists>f\<in>set (map toFlowNode body). failsIn f L b" by auto
      from toOtherwise_fails [OF _ this sc1, of successor] obtain e where
        "toOtherwise (Some (map toFlowNode body)) successor st1 = Inl e"
        by (auto simp: toFlowNode_keeps)
      with ow have "toOtherwise (map_option (map toFlowNode) ow) successor st1 = Inl e" by simp
      from If_fail_otherwise [OF Inr [unfolded r] this] show ?thesis by blast
    qed
  qed
next
  case (SSwitch p brs ow)
  show ?case
    unfolding failsIn_def
  proof (intro allI impI)
    fix successor st
    assume sc: "inScope st L b"
    show "\<exists>e. toFlowNode (SSwitch p brs ow) successor st = Inl e"
    proof (cases "toOtherwise (map_option (map toFlowNode) ow) successor st")
      case (Inl e)
      then show ?thesis by (blast intro: Switch_fail_otherwise)
    next
      case (Inr r)
      obtain otherwise st1 where r: "r = (otherwise, st1)" by (cases r) auto
      from toOtherwise_keeps [OF otherwise_keeps Inr [unfolded r]] sc have sc1: "inScope st1 L b"
        by (simp add: inScope_def)
      have "\<not> (\<exists>body. ow = Some body \<and> (\<exists>s\<in>set body. compileError s L b))"
      proof
        assume "\<exists>body. ow = Some body \<and> (\<exists>s\<in>set body. compileError s L b)"
        then obtain body where ow: "ow = Some body" "\<exists>s\<in>set body. compileError s L b" by blast
        then obtain s where s: "s \<in> set body" "compileError s L b" by blast
        have "body \<in> set_option ow" using ow by simp
        from SSwitch.IH(2) [OF this s] s(1)
        have "\<exists>f\<in>set (map toFlowNode body). failsIn f L b" by auto
        from toOtherwise_fails [OF _ this sc, of successor] ow Inr
        show False by (auto simp: toFlowNode_keeps)
      qed
      with SSwitch.prems have "\<exists>br\<in>set brs. \<exists>s\<in>set (snd br). compileError s L b"
        unfolding compileError_Switch by blast
      then have "\<exists>br\<in>set brs. \<exists>s\<in>set (snd br). failsIn (toFlowNode s) L b"
        using SSwitch.IH(1) by (metis prod_set_simps(2) prod.collapse singletonI)
      from switchBranches_fails [OF branches_keep branches_fail [OF this] sc1] obtain e where
        "switchBranches (map (map_prod id (map toFlowNode)) brs)
           (case otherwise of None \<Rightarrow> successor | Some n \<Rightarrow> refOf n) st1 = Inl e" by blast
      from Switch_fail_branches [OF Inr [unfolded r] this] show ?thesis by blast
    qed
  qed
next
  case (SLoop skip ini cond iter label body)
  have k: "\<forall>f\<in>set (map toFlowNode body). keeps f" by (auto simp: toFlowNode_keeps)
  have "(case label of None \<Rightarrow> False | Some l \<Rightarrow> l \<in> L)
         \<or> (\<exists>f\<in>set (map toFlowNode body).
               failsIn f (case label of None \<Rightarrow> L | Some l \<Rightarrow> insert l L) True)"
    using SLoop.prems SLoop.IH unfolding compileError_Loop by auto
  from toLoop_fails [OF k this] show ?case
    unfolding failsIn_def by auto
next
  case (SBreak label)
  then show ?case
    by (cases label) (auto simp: failsIn_def inScope_def toBreak_def split: list.splits option.splits)
next
  case SContinue
  then show ?case
    by (auto simp: failsIn_def inScope_def toContinue_def split: list.splits)
next
  case SOther
  show ?case by (simp add: failsIn_def)
qed simp_all

section \<open>What lowering throws\<close>

lemma throwsFlowD: "throwsFlow f \<Longrightarrow> f successor st = Inl e \<Longrightarrow> flowError e"
  unfolding throwsFlow_def by blast

lemma toNodes_throws:
  assumes "\<forall>f\<in>set fs. throwsFlow f" and "toNodes fs successor st = Inl e"
  shows "flowError e"
  using assms
proof (induction fs)
  case Nil
  then show ?case by simp
next
  case (Cons f fs)
  show ?case
  proof (cases "toNodes fs successor st")
    case (Inl e')
    with Cons show ?thesis by simp
  next
    case (Inr r)
    obtain ns l st1 where r: "r = ((ns, l), st1)" by (cases r) auto
    with Inr Cons.prems(2) have "f l st1 = Inl e" by (simp split: sum.splits prod.splits)
    with Cons.prems(1) show ?thesis by (auto dest: throwsFlowD)
  qed
qed

lemma toBlockFlowNode_throws:
  assumes "\<forall>f\<in>set fs. throwsFlow f" and "toBlockFlowNode fs successor st = Inl e"
  shows "flowError e"
proof -
  from assms(2) have "toNodes fs successor st = Inl e"
    by (auto simp: toBlockFlowNode_def alloc_def split: sum.splits prod.splits)
  from toNodes_throws [OF assms(1) this] show ?thesis .
qed

lemma toOtherwise_throws:
  assumes "\<forall>fs\<in>set_option ow. \<forall>f\<in>set fs. throwsFlow f"
    and "toOtherwise ow successor st = Inl e"
  shows "flowError e"
proof (cases ow)
  case None
  with assms(2) show ?thesis by (simp add: toOtherwise_def)
next
  case (Some fs)
  with assms(2) have "toBlockFlowNode fs successor st = Inl e"
    by (auto simp: toOtherwise_def split: sum.splits prod.splits)
  from toBlockFlowNode_throws [OF _ this] assms(1) Some show ?thesis by simp
qed

lemma ifBranches_throws:
  assumes "\<forall>br\<in>set brs. \<forall>f\<in>set (snd br). throwsFlow f"
    and "ifBranches brs successor st = Inl e"
  shows "flowError e"
  using assms
proof (induction brs arbitrary: st)
  case Nil
  then show ?case by simp
next
  case (Cons br brs)
  show ?case
  proof (cases "toBlockFlowNode (snd br) successor st")
    case (Inl e')
    with Cons.prems(2) have "e' = e" by simp
    with toBlockFlowNode_throws [OF _ Inl] Cons.prems(1) show ?thesis by simp
  next
    case (Inr r)
    obtain n st1 where r: "r = (n, st1)" by (cases r) auto
    with Inr Cons.prems(2) have "ifBranches brs successor st1 = Inl e"
      by (simp split: sum.splits prod.splits)
    from Cons.IH [OF _ this] Cons.prems(1) show ?thesis by simp
  qed
qed

lemma switchBranches_throws:
  assumes "\<forall>br\<in>set brs. \<forall>f\<in>set (snd br). throwsFlow f"
    and "switchBranches brs last0 st = Inl e"
  shows "flowError e"
  using assms
proof (induction brs)
  case Nil
  then show ?case by simp
next
  case (Cons br brs)
  show ?case
  proof (cases "switchBranches brs last0 st")
    case (Inl e')
    with Cons show ?thesis by simp
  next
    case (Inr r)
    obtain bs l st1 where r: "r = ((bs, l), st1)" by (cases r) auto
    show ?thesis
    proof (cases "toBlockFlowNode (snd br) l st1")
      case (Inl e')
      with Inr r Cons.prems(2) have "e' = e" by simp
      with toBlockFlowNode_throws [OF _ Inl] Cons.prems(1) show ?thesis by simp
    next
      case Inr2: (Inr r2)
      obtain ch st2 where r2: "r2 = (ch, st2)" by (cases r2) auto
      with Inr r Inr2 Cons.prems(2) have "toBlockFlowNode (snd br) (refOf ch) st2 = Inl e"
        by (simp split: sum.splits prod.splits)
      from toBlockFlowNode_throws [OF _ this] Cons.prems(1) show ?thesis by simp
    qed
  qed
qed

lemma toLoop_throws:
  assumes "\<forall>f\<in>set body. throwsFlow f"
    and "toLoop statement skip ini label body successor st = Inl e"
  shows "flowError e"
proof (cases "registerLabel label (Suc (fresh st)) (st\<lparr>fresh := Suc (Suc (fresh st))\<rparr>)")
  case (Inl e')
  with assms(2) have "e' = e" by (simp add: toLoop_def toBlockFlowNode_def alloc_def)
  with Inl show ?thesis
    by (cases label) (auto simp: registerLabel_def split: if_splits)
next
  case (Inr st3)
  with assms(2) have "toBlockFlowNode body (Suc (fresh st))
         (st3\<lparr>breakableNodeStack := Suc (fresh st) # breakableNodeStack st3\<rparr>) = Inl e"
    by (simp add: toLoop_def toBlockFlowNode_def [of "[]"] alloc_def Let_def
        split: sum.splits prod.splits option.splits if_splits)
  from toBlockFlowNode_throws [OF assms(1) this] show ?thesis .
qed

lemma toFlowNode_throws: "throwsFlow (toFlowNode s)"
proof (induction s)
  case (SIf brs ow)
  have b: "\<forall>br\<in>set (map (map_prod id (map toFlowNode)) brs). \<forall>f\<in>set (snd br). throwsFlow f"
    using SIf.IH(1) by (auto simp: prod_set_defs)
  have o: "\<forall>fs\<in>set_option (map_option (map toFlowNode) ow). \<forall>f\<in>set fs. throwsFlow f"
    using SIf.IH(2) by (cases ow) auto
  show ?case
    unfolding throwsFlow_def
  proof (intro allI impI)
    fix successor st e
    assume a: "toFlowNode (SIf brs ow) successor st = Inl e"
    show "flowError e"
    proof (cases "ifBranches (map (map_prod id (map toFlowNode)) brs) successor st")
      case (Inl e')
      with a have "e' = e" by simp
      with ifBranches_throws [OF b Inl] show ?thesis by simp
    next
      case (Inr r)
      obtain bs st1 where r: "r = (bs, st1)" by (cases r) auto
      with Inr a have "toOtherwise (map_option (map toFlowNode) ow) successor st1 = Inl e"
        by (simp add: alloc_def split: sum.splits prod.splits)
      from toOtherwise_throws [OF o this] show ?thesis .
    qed
  qed
next
  case (SSwitch p brs ow)
  have b: "\<forall>br\<in>set (map (map_prod id (map toFlowNode)) brs). \<forall>f\<in>set (snd br). throwsFlow f"
    using SSwitch.IH(1) by (auto simp: prod_set_defs)
  have o: "\<forall>fs\<in>set_option (map_option (map toFlowNode) ow). \<forall>f\<in>set fs. throwsFlow f"
    using SSwitch.IH(2) by (cases ow) auto
  show ?case
    unfolding throwsFlow_def
  proof (intro allI impI)
    fix successor st e
    assume a: "toFlowNode (SSwitch p brs ow) successor st = Inl e"
    show "flowError e"
    proof (cases "toOtherwise (map_option (map toFlowNode) ow) successor st")
      case (Inl e')
      with a have "e' = e" by simp
      with toOtherwise_throws [OF o Inl] show ?thesis by simp
    next
      case (Inr r)
      obtain otherwise st1 where r: "r = (otherwise, st1)" by (cases r) auto
      with Inr a have "switchBranches (map (map_prod id (map toFlowNode)) brs)
           (case otherwise of None \<Rightarrow> successor | Some n \<Rightarrow> refOf n) st1 = Inl e"
        by (simp add: alloc_def split: sum.splits prod.splits)
      from switchBranches_throws [OF b this] show ?thesis .
    qed
  qed
next
  case (SLoop skip ini cond iter label body)
  have b: "\<forall>f\<in>set (map toFlowNode body). throwsFlow f" using SLoop.IH by auto
  show ?case
    unfolding throwsFlow_def using toLoop_throws [OF b] by auto
next
  case (SBreak label)
  show ?case
    by (cases label)
      (auto simp: throwsFlow_def toBreak_def alloc_def split: list.splits option.splits)
next
  case SContinue
  show ?case
    by (auto simp: throwsFlow_def toContinue_def alloc_def split: list.splits)
qed (auto simp: throwsFlow_def alloc_def)

section \<open>Lowering succeeds without a compile-time error\<close>

lemma succeedsInD:
  "succeedsIn f L b \<Longrightarrow> inScope st L b \<Longrightarrow> \<exists>n st'. f successor st = Inr (n, st')"
  unfolding succeedsIn_def by blast

lemma toNodes_succeeds:
  assumes "\<forall>f\<in>set fs. keeps f" and "\<forall>f\<in>set fs. succeedsIn f L b" and "inScope st L b"
  shows "\<exists>ns l st'. toNodes fs successor st = Inr ((ns, l), st')"
  using assms
proof (induction fs)
  case Nil
  then show ?case by simp
next
  case (Cons f fs)
  from Cons.IH Cons.prems obtain ns l st1 where
    t: "toNodes fs successor st = Inr ((ns, l), st1)" by auto
  from toNodes_keeps [OF _ t] Cons.prems(1,3) have sc1: "inScope st1 L b"
    by (simp add: inScope_def)
  from Cons.prems(2) have "succeedsIn f L b" by simp
  from succeedsInD [OF this sc1, of l] obtain n st' where "f l st1 = Inr (n, st')"
    by blast
  with t show ?case by simp
qed

lemma toBlockFlowNode_succeeds:
  assumes "\<forall>f\<in>set fs. keeps f" and "\<forall>f\<in>set fs. succeedsIn f L b" and "inScope st L b"
  shows "\<exists>n st'. toBlockFlowNode fs successor st = Inr (n, st')"
  using toNodes_succeeds [OF assms, of successor]
  by (auto simp: toBlockFlowNode_def alloc_def)

lemma toOtherwise_succeeds:
  assumes "\<forall>fs\<in>set_option ow. \<forall>f\<in>set fs. keeps f"
    and "\<forall>fs\<in>set_option ow. \<forall>f\<in>set fs. succeedsIn f L b" and "inScope st L b"
  shows "\<exists>n st'. toOtherwise ow successor st = Inr (n, st')"
proof (cases ow)
  case None
  then show ?thesis by (simp add: toOtherwise_def)
next
  case (Some fs)
  with toBlockFlowNode_succeeds [OF _ _ assms(3), of fs successor] assms(1,2)
  show ?thesis by (auto simp: toOtherwise_def)
qed

lemma ifBranches_succeeds:
  assumes "\<forall>br\<in>set brs. \<forall>f\<in>set (snd br). keeps f"
    and "\<forall>br\<in>set brs. \<forall>f\<in>set (snd br). succeedsIn f L b" and "inScope st L b"
  shows "\<exists>bs st'. ifBranches brs successor st = Inr (bs, st')"
  using assms
proof (induction brs arbitrary: st)
  case Nil
  then show ?case by simp
next
  case (Cons br brs)
  from toBlockFlowNode_succeeds [OF _ _ Cons.prems(3), of "snd br" successor] Cons.prems(1,2)
  obtain n st1 where t: "toBlockFlowNode (snd br) successor st = Inr (n, st1)" by auto
  from toBlockFlowNode_keeps [OF _ t] Cons.prems(1,3) have "inScope st1 L b"
    by (simp add: inScope_def)
  from Cons.IH [OF _ _ this] Cons.prems(1,2) obtain bs st' where
    "ifBranches brs successor st1 = Inr (bs, st')" by auto
  with t show ?case by simp
qed

lemma switchBranches_succeeds:
  assumes "\<forall>br\<in>set brs. \<forall>f\<in>set (snd br). keeps f"
    and "\<forall>br\<in>set brs. \<forall>f\<in>set (snd br). succeedsIn f L b" and "inScope st L b"
  shows "\<exists>bs l st'. switchBranches brs last0 st = Inr ((bs, l), st')"
  using assms
proof (induction brs)
  case Nil
  then show ?case by simp
next
  case (Cons br brs)
  from Cons.IH Cons.prems obtain bs l st1 where
    t: "switchBranches brs last0 st = Inr ((bs, l), st1)" by auto
  from switchBranches_keeps [OF _ t] Cons.prems(1,3) have sc1: "inScope st1 L b"
    by (simp add: inScope_def)
  from toBlockFlowNode_succeeds [OF _ _ sc1, of "snd br" l] Cons.prems(1,2)
  obtain ch st2 where c: "toBlockFlowNode (snd br) l st1 = Inr (ch, st2)" by auto
  from toBlockFlowNode_keeps [OF _ c] Cons.prems(1) sc1 have sc2: "inScope st2 L b"
    by (simp add: inScope_def)
  from toBlockFlowNode_succeeds [OF _ _ sc2, of "snd br" "refOf ch"] Cons.prems(1,2)
  obtain n st3 where "toBlockFlowNode (snd br) (refOf ch) st2 = Inr (n, st3)" by auto
  with t c show ?case by simp
qed

lemma toLoop_succeeds:
  assumes "\<forall>f\<in>set body. keeps f"
    and "\<not> (case label of None \<Rightarrow> False | Some l \<Rightarrow> l \<in> L)"
    and "\<forall>f\<in>set body. succeedsIn f (case label of None \<Rightarrow> L | Some l \<Rightarrow> insert l L) True"
    and "inScope st L b"
  shows "\<exists>n st'. toLoop statement skip ini label body successor st = Inr (n, st')"
proof -
  obtain st3 where reg:
    "registerLabel label (Suc (fresh st)) (st\<lparr>fresh := Suc (Suc (fresh st))\<rparr>) = Inr st3"
    using assms(2,4)
    by (cases label) (auto simp: registerLabel_def inScope_def)
  have "inScope (st3\<lparr>breakableNodeStack := Suc (fresh st) # breakableNodeStack st3\<rparr>)
          (case label of None \<Rightarrow> L | Some l \<Rightarrow> insert l L) True"
    using reg assms(4)
    by (cases label) (auto simp: registerLabel_def inScope_def split: if_splits)
  from toBlockFlowNode_succeeds [OF assms(1,3) this, of "Suc (fresh st)"] obtain bodyNode st5 where
    "toBlockFlowNode body (Suc (fresh st))
       (st3\<lparr>breakableNodeStack := Suc (fresh st) # breakableNodeStack st3\<rparr>) = Inr (bodyNode, st5)"
    by auto
  with reg show ?thesis
    by (cases ini) (simp_all add: toLoop_def toBlockFlowNode_def [of "[]"] alloc_def Let_def)
qed

lemma toFlowNode_succeeds: "\<not> compileError s L b \<Longrightarrow> succeedsIn (toFlowNode s) L b"
proof (induction s arbitrary: L b)
  case (SIf brs ow)
  from SIf.prems have nb: "\<forall>br\<in>set brs. \<forall>s\<in>set (snd br). \<not> compileError s L b"
    and no: "\<forall>body. ow = Some body \<longrightarrow> (\<forall>s\<in>set body. \<not> compileError s L b)"
    unfolding compileError_If by blast+
  have b: "\<forall>br\<in>set (map (map_prod id (map toFlowNode)) brs). \<forall>f\<in>set (snd br). succeedsIn f L b"
    using SIf.IH(1) nb by (fastforce simp: prod_set_defs)
  have o: "\<forall>fs\<in>set_option (map_option (map toFlowNode) ow). \<forall>f\<in>set fs. succeedsIn f L b"
    using SIf.IH(2) no by (cases ow) auto
  show ?case
    unfolding succeedsIn_def
  proof (intro allI impI)
    fix successor st
    assume sc: "inScope st L b"
    from ifBranches_succeeds [OF branches_keep b sc, of successor] obtain bs st1 where
      i: "ifBranches (map (map_prod id (map toFlowNode)) brs) successor st = Inr (bs, st1)" by blast
    from ifBranches_keeps [OF branches_keep i] sc have sc1: "inScope st1 L b"
      by (simp add: inScope_def)
    from toOtherwise_succeeds [OF otherwise_keeps o sc1, of successor] obtain ot st2 where
      "toOtherwise (map_option (map toFlowNode) ow) successor st1 = Inr (ot, st2)" by blast
    with i show "\<exists>n st'. toFlowNode (SIf brs ow) successor st = Inr (n, st')"
      by (simp add: alloc_def)
  qed
next
  case (SSwitch p brs ow)
  from SSwitch.prems have nb: "\<forall>br\<in>set brs. \<forall>s\<in>set (snd br). \<not> compileError s L b"
    and no: "\<forall>body. ow = Some body \<longrightarrow> (\<forall>s\<in>set body. \<not> compileError s L b)"
    unfolding compileError_Switch by blast+
  have b: "\<forall>br\<in>set (map (map_prod id (map toFlowNode)) brs). \<forall>f\<in>set (snd br). succeedsIn f L b"
    using SSwitch.IH(1) nb by (fastforce simp: prod_set_defs)
  have o: "\<forall>fs\<in>set_option (map_option (map toFlowNode) ow). \<forall>f\<in>set fs. succeedsIn f L b"
    using SSwitch.IH(2) no by (cases ow) auto
  show ?case
    unfolding succeedsIn_def
  proof (intro allI impI)
    fix successor st
    assume sc: "inScope st L b"
    from toOtherwise_succeeds [OF otherwise_keeps o sc, of successor] obtain ot st1 where
      t: "toOtherwise (map_option (map toFlowNode) ow) successor st = Inr (ot, st1)" by blast
    from toOtherwise_keeps [OF otherwise_keeps t] sc have sc1: "inScope st1 L b"
      by (simp add: inScope_def)
    from switchBranches_succeeds [OF branches_keep b sc1] obtain bs l st2 where
      "switchBranches (map (map_prod id (map toFlowNode)) brs)
         (case ot of None \<Rightarrow> successor | Some n \<Rightarrow> refOf n) st1 = Inr ((bs, l), st2)" by blast
    with t show "\<exists>n st'. toFlowNode (SSwitch p brs ow) successor st = Inr (n, st')"
      by (simp add: alloc_def)
  qed
next
  case (SLoop skip ini cond iter label body)
  have k: "\<forall>f\<in>set (map toFlowNode body). keeps f" by (auto simp: toFlowNode_keeps)
  from SLoop.prems have nl: "\<not> (case label of None \<Rightarrow> False | Some l \<Rightarrow> l \<in> L)"
    and nb: "\<forall>s\<in>set body. \<not> compileError s (case label of None \<Rightarrow> L | Some l \<Rightarrow> insert l L) True"
    unfolding compileError_Loop by blast+
  have "\<forall>f\<in>set (map toFlowNode body).
          succeedsIn f (case label of None \<Rightarrow> L | Some l \<Rightarrow> insert l L) True"
    using SLoop.IH nb by auto
  from toLoop_succeeds [OF k nl this] show ?case
    unfolding succeedsIn_def by auto
next
  case (SBreak label)
  then show ?case
    by (cases label)
      (auto simp: succeedsIn_def inScope_def toBreak_def alloc_def split: list.splits option.splits)
next
  case SContinue
  then show ?case
    by (auto simp: succeedsIn_def inScope_def toContinue_def alloc_def split: list.splits)
qed (auto simp: succeedsIn_def alloc_def)

section \<open>Empty blocks reach the flow graph\<close>

lemma emptyOrAny_map: "emptyOrAny (map g xs) = (xs = [] \<or> (\<exists>x\<in>set xs. g x))"
  by (auto simp: emptyOrAny_def list_ex_iff)

lemma branches_any:
  "list_ex (\<lambda>br. emptyOrAny (snd br)) (map (map_prod id (map g)) brs)
     = (\<exists>br\<in>set brs. snd br = [] \<or> (\<exists>x\<in>set (snd br). g x))"
  by (induction brs) (auto simp: emptyOrAny_map)

lemma hasEmptyBlock_If:
  "hasEmptyBlock (SIf brs ow) =
     ((\<exists>br\<in>set brs. snd br = [] \<or> (\<exists>s\<in>set (snd br). hasEmptyBlock s))
      \<or> (\<exists>body. ow = Some body \<and> (body = [] \<or> (\<exists>s\<in>set body. hasEmptyBlock s))))"
  by (cases ow) (simp_all add: branches_any emptyOrAny_map)

lemma hasEmptyBlock_Switch:
  "hasEmptyBlock (SSwitch p brs ow) =
     ((\<exists>br\<in>set brs. snd br = [] \<or> (\<exists>s\<in>set (snd br). hasEmptyBlock s))
      \<or> (\<exists>body. ow = Some body \<and> (body = [] \<or> (\<exists>s\<in>set body. hasEmptyBlock s))))"
  by (cases ow) (simp_all add: branches_any emptyOrAny_map)

lemma hasEmptyBlock_Loop:
  "hasEmptyBlock (SLoop skip ini cond iter label body) =
     (body = [] \<or> (\<exists>s\<in>set body. hasEmptyBlock s))"
  by (simp add: emptyOrAny_map)

lemma emptyNBlock_branches:
  "list_ex (\<lambda>b. snd b) (map (map_prod id emptyNBlock) bs) = (\<exists>b\<in>set bs. emptyNBlock (snd b))"
  by (induction bs) auto

lemma emptyNBlock_If:
  "emptyNBlock (NIf r s bs ow m n) =
     ((\<exists>b\<in>set bs. emptyNBlock (snd b)) \<or> (\<exists>b. ow = Some b \<and> emptyNBlock b))"
  by (cases ow) (simp_all add: emptyNBlock_branches)

lemma emptyNBlock_Switch:
  "emptyNBlock (NSwitch r s bs ow m n) =
     ((\<exists>b\<in>set bs. emptyNBlock (snd b)) \<or> (\<exists>b. ow = Some b \<and> emptyNBlock b))"
  by (cases ow) (simp_all add: emptyNBlock_branches)

lemma emptyNBlock_Block:
  "emptyNBlock (NBlock r ns n m) = (ns = [] \<or> (\<exists>x\<in>set ns. emptyNBlock x))"
  by (simp add: emptyOrAny_map)

declare emptyNBlock.simps(4,5,10) [simp del]
declare emptyNBlock_If [simp] emptyNBlock_Switch [simp] emptyNBlock_Block [simp]

lemma snd_map_branches:
  "map (\<lambda>b. snd b) (map (map_prod id g) bs) = map (\<lambda>b. g (snd b)) bs"
  by (induction bs) auto

lemma yieldsEmptyD: "yieldsEmpty f \<Longrightarrow> f successor st = Inr (n, st') \<Longrightarrow> emptyNBlock n"
  unfolding yieldsEmpty_def by blast

lemma toNodes_yields:
  assumes "\<exists>f\<in>set fs. yieldsEmpty f" and "toNodes fs successor st = Inr ((ns, l), st')"
  shows "\<exists>n\<in>set ns. emptyNBlock n"
  using assms
proof (induction fs arbitrary: ns l st')
  case Nil
  then show ?case by simp
next
  case (Cons f fs)
  from Cons.prems(2) obtain ns1 l1 st1 n where
    t: "toNodes fs successor st = Inr ((ns1, l1), st1)" and h: "f l1 st1 = Inr (n, st')"
    and ns: "ns = n # ns1"
    by (auto split: sum.splits prod.splits)
  show ?case
  proof (cases "yieldsEmpty f")
    case True
    with h ns show ?thesis by (auto dest: yieldsEmptyD)
  next
    case False
    with Cons.prems(1) have "\<exists>f\<in>set fs. yieldsEmpty f" by auto
    from Cons.IH [OF this t] ns show ?thesis by auto
  qed
qed

lemma toBlockFlowNode_yields:
  assumes "fs = [] \<or> (\<exists>f\<in>set fs. yieldsEmpty f)"
    and "toBlockFlowNode fs successor st = Inr (n, st')"
  shows "emptyNBlock n"
proof -
  from assms(2) obtain ns l st1 r m where t: "toNodes fs successor st = Inr ((ns, l), st1)"
    and n: "n = NBlock r ns successor m"
    by (auto simp: toBlockFlowNode_def alloc_def split: sum.splits prod.splits)
  show ?thesis
  proof (cases "fs = []")
    case True
    with t n show ?thesis by simp
  next
    case False
    with assms(1) have "\<exists>f\<in>set fs. yieldsEmpty f" by simp
    from toNodes_yields [OF this t] n show ?thesis by auto
  qed
qed

lemma toOtherwise_yields:
  assumes "fs = [] \<or> (\<exists>f\<in>set fs. yieldsEmpty f)"
    and "toOtherwise (Some fs) successor st = Inr (ot, st')"
  shows "\<exists>b. ot = Some b \<and> emptyNBlock b"
proof -
  from assms(2) obtain n where t: "toBlockFlowNode fs successor st = Inr (n, st')"
    and ot: "ot = Some n"
    by (auto simp: toOtherwise_def split: sum.splits prod.splits)
  from toBlockFlowNode_yields [OF assms(1) t] ot show ?thesis by simp
qed

lemma ifBranches_yields:
  assumes "\<exists>br\<in>set brs. snd br = [] \<or> (\<exists>f\<in>set (snd br). yieldsEmpty f)"
    and "ifBranches brs successor st = Inr (bs, st')"
  shows "\<exists>b\<in>set bs. emptyNBlock (snd b)"
  using assms
proof (induction brs arbitrary: st bs)
  case Nil
  then show ?case by simp
next
  case (Cons br brs)
  from Cons.prems(2) obtain n st1 bs1 where
    b: "toBlockFlowNode (snd br) successor st = Inr (n, st1)"
    and r: "ifBranches brs successor st1 = Inr (bs1, st')"
    and bs: "bs = (fst br, n) # bs1"
    by (auto split: sum.splits prod.splits)
  show ?case
  proof (cases "snd br = [] \<or> (\<exists>f\<in>set (snd br). yieldsEmpty f)")
    case True
    from toBlockFlowNode_yields [OF True b] bs show ?thesis by simp
  next
    case False
    with Cons.prems(1) have "\<exists>br\<in>set brs. snd br = [] \<or> (\<exists>f\<in>set (snd br). yieldsEmpty f)"
      by auto
    from Cons.IH [OF this r] bs show ?thesis by auto
  qed
qed

lemma switchBranches_yields:
  assumes "\<exists>br\<in>set brs. snd br = [] \<or> (\<exists>f\<in>set (snd br). yieldsEmpty f)"
    and "switchBranches brs last0 st = Inr ((bs, l), st')"
  shows "\<exists>b\<in>set bs. emptyNBlock (snd b)"
  using assms
proof (induction brs arbitrary: st' bs l)
  case Nil
  then show ?case by simp
next
  case (Cons br brs)
  from Cons.prems(2) obtain bs1 l1 st1 ch st2 n where
    r: "switchBranches brs last0 st = Inr ((bs1, l1), st1)"
    and c: "toBlockFlowNode (snd br) l1 st1 = Inr (ch, st2)"
    and b: "toBlockFlowNode (snd br) (refOf ch) st2 = Inr (n, st')"
    and bs: "bs = (fst br, n) # bs1"
    by (auto split: sum.splits prod.splits)
  show ?case
  proof (cases "snd br = [] \<or> (\<exists>f\<in>set (snd br). yieldsEmpty f)")
    case True
    from toBlockFlowNode_yields [OF True b] bs show ?thesis by simp
  next
    case False
    with Cons.prems(1) have "\<exists>br\<in>set brs. snd br = [] \<or> (\<exists>f\<in>set (snd br). yieldsEmpty f)"
      by auto
    from Cons.IH [OF this r] bs show ?thesis by auto
  qed
qed

lemma toLoop_yields:
  assumes "body = [] \<or> (\<exists>f\<in>set body. yieldsEmpty f)"
    and "toLoop statement skip ini label body successor st = Inr (n, st')"
  shows "emptyNBlock n"
proof -
  from assms(2) obtain st3 where reg:
    "registerLabel label (Suc (fresh st)) (st\<lparr>fresh := Suc (Suc (fresh st))\<rparr>) = Inr st3"
    by (cases "registerLabel label (Suc (fresh st)) (st\<lparr>fresh := Suc (Suc (fresh st))\<rparr>)")
      (simp_all add: toLoop_def toBlockFlowNode_def [of "[]"] alloc_def)
  from assms(2) reg obtain bodyNode st5 where body:
    "toBlockFlowNode body (Suc (fresh st))
       (st3\<lparr>breakableNodeStack := Suc (fresh st) # breakableNodeStack st3\<rparr>) = Inr (bodyNode, st5)"
    by (cases "toBlockFlowNode body (Suc (fresh st))
       (st3\<lparr>breakableNodeStack := Suc (fresh st) # breakableNodeStack st3\<rparr>)")
      (auto simp: toLoop_def toBlockFlowNode_def [of "[]"] alloc_def)
  from toBlockFlowNode_yields [OF assms(1) body] have e: "emptyNBlock bodyNode" .
  from assms(2) reg body have
    "n = bodyNode \<or> (\<exists>r m. n = NLoop r statement bodyNode m successor)
     \<or> (\<exists>r r' m. n = NLoopInitializer r (NLoop r' statement bodyNode m successor))"
    by (cases ini)
      (auto simp: toLoop_def toBlockFlowNode_def [of "[]"] alloc_def Let_def split: if_splits)
  with e show ?thesis by auto
qed

lemma toFlowNode_yields: "hasEmptyBlock s \<Longrightarrow> yieldsEmpty (toFlowNode s)"
proof (induction s)
  case (SIf brs ow)
  show ?case
    unfolding yieldsEmpty_def
  proof (intro allI impI)
    fix successor st n st'
    assume a: "toFlowNode (SIf brs ow) successor st = Inr (n, st')"
    then obtain bs st1 ot st2 r m where
      i: "ifBranches (map (map_prod id (map toFlowNode)) brs) successor st = Inr (bs, st1)"
      and t: "toOtherwise (map_option (map toFlowNode) ow) successor st1 = Inr (ot, st2)"
      and n: "n = NIf r (SIf brs ow) bs ot m successor"
      by (auto simp: alloc_def split: sum.splits prod.splits)
    from SIf.prems consider
      (br) "\<exists>br\<in>set brs. snd br = [] \<or> (\<exists>s\<in>set (snd br). hasEmptyBlock s)"
      | (ow) body where "ow = Some body" "body = [] \<or> (\<exists>s\<in>set body. hasEmptyBlock s)"
      unfolding hasEmptyBlock_If by blast
    then show "emptyNBlock n"
    proof cases
      case br
      then obtain b where b: "b \<in> set brs" "snd b = [] \<or> (\<exists>s\<in>set (snd b). hasEmptyBlock s)"
        by blast
      have "snd (map_prod id (map toFlowNode) b) = []
            \<or> (\<exists>f\<in>set (snd (map_prod id (map toFlowNode) b)). yieldsEmpty f)"
      proof (cases "snd b = []")
        case True
        then show ?thesis by (cases b) simp
      next
        case False
        with b(2) obtain s where s: "s \<in> set (snd b)" "hasEmptyBlock s" by blast
        have "snd b \<in> Basic_BNFs.snds b" by (cases b) simp
        from SIf.IH(1) [OF b(1) this s] s(1) show ?thesis by (cases b) auto
      qed
      with b(1) have "\<exists>br\<in>set (map (map_prod id (map toFlowNode)) brs).
          snd br = [] \<or> (\<exists>f\<in>set (snd br). yieldsEmpty f)" by auto
      from ifBranches_yields [OF this i] n show ?thesis by auto
    next
      case ow
      have "map toFlowNode body = [] \<or> (\<exists>f\<in>set (map toFlowNode body). yieldsEmpty f)"
      proof (cases "body = []")
        case True
        then show ?thesis by simp
      next
        case False
        with ow(2) obtain s where s: "s \<in> set body" "hasEmptyBlock s" by blast
        have "body \<in> set_option ow" using ow(1) by simp
        from SIf.IH(2) [OF this s] s(1) show ?thesis by auto
      qed
      from toOtherwise_yields [OF this] t ow(1) n show ?thesis
        by auto
    qed
  qed
next
  case (SSwitch p brs ow)
  show ?case
    unfolding yieldsEmpty_def
  proof (intro allI impI)
    fix successor st n st'
    assume a: "toFlowNode (SSwitch p brs ow) successor st = Inr (n, st')"
    then obtain bs l st1 ot st2 r m where
      t: "toOtherwise (map_option (map toFlowNode) ow) successor st = Inr (ot, st1)"
      and i: "switchBranches (map (map_prod id (map toFlowNode)) brs)
               (case ot of None \<Rightarrow> successor | Some x \<Rightarrow> refOf x) st1 = Inr ((bs, l), st2)"
      and n: "n = NSwitch r (SSwitch p brs ow) bs ot m successor"
      by (auto simp: alloc_def split: sum.splits prod.splits)
    from SSwitch.prems consider
      (br) "\<exists>br\<in>set brs. snd br = [] \<or> (\<exists>s\<in>set (snd br). hasEmptyBlock s)"
      | (ow) body where "ow = Some body" "body = [] \<or> (\<exists>s\<in>set body. hasEmptyBlock s)"
      unfolding hasEmptyBlock_Switch by blast
    then show "emptyNBlock n"
    proof cases
      case br
      then obtain b where b: "b \<in> set brs" "snd b = [] \<or> (\<exists>s\<in>set (snd b). hasEmptyBlock s)"
        by blast
      have "snd (map_prod id (map toFlowNode) b) = []
            \<or> (\<exists>f\<in>set (snd (map_prod id (map toFlowNode) b)). yieldsEmpty f)"
      proof (cases "snd b = []")
        case True
        then show ?thesis by (cases b) simp
      next
        case False
        with b(2) obtain s where s: "s \<in> set (snd b)" "hasEmptyBlock s" by blast
        have "snd b \<in> Basic_BNFs.snds b" by (cases b) simp
        from SSwitch.IH(1) [OF b(1) this s] s(1) show ?thesis by (cases b) auto
      qed
      with b(1) have "\<exists>br\<in>set (map (map_prod id (map toFlowNode)) brs).
          snd br = [] \<or> (\<exists>f\<in>set (snd br). yieldsEmpty f)" by auto
      from switchBranches_yields [OF this i] n show ?thesis by auto
    next
      case ow
      have "map toFlowNode body = [] \<or> (\<exists>f\<in>set (map toFlowNode body). yieldsEmpty f)"
      proof (cases "body = []")
        case True
        then show ?thesis by simp
      next
        case False
        with ow(2) obtain s where s: "s \<in> set body" "hasEmptyBlock s" by blast
        have "body \<in> set_option ow" using ow(1) by simp
        from SSwitch.IH(2) [OF this s] s(1) show ?thesis by auto
      qed
      from toOtherwise_yields [OF this] t ow(1) n show ?thesis
        by auto
    qed
  qed
next
  case (SLoop skip ini cond iter label body)
  have "map toFlowNode body = [] \<or> (\<exists>f\<in>set (map toFlowNode body). yieldsEmpty f)"
    using SLoop.prems SLoop.IH unfolding hasEmptyBlock_Loop by auto
  from toLoop_yields [OF this] show ?case
    unfolding yieldsEmpty_def by auto
qed simp_all

section \<open>The labelling walk throws on an empty Block\<close>

lemma forEachL_TypeError:
  assumes "\<forall>f\<in>set fs. \<forall>st e. f st = Inl e \<longrightarrow> e = TypeError"
    and "forEachL fs st = Inl e"
  shows "e = TypeError"
  using assms
proof (induction fs arbitrary: st)
  case Nil
  then show ?case by simp
next
  case (Cons f fs)
  then show ?case by (cases "f st") auto
qed

lemma forEachL_fails:
  assumes "\<exists>f\<in>set fs. \<forall>st. \<exists>e. f st = Inl e"
  shows "\<exists>e. forEachL fs st = Inl e"
  using assms
proof (induction fs arbitrary: st)
  case Nil
  then show ?case by simp
next
  case (Cons f fs)
  show ?case
  proof (cases "f st")
    case (Inl e)
    then show ?thesis by simp
  next
    case (Inr st1)
    from Cons.prems obtain g where g: "g \<in> set (f # fs)" "\<forall>st. \<exists>e. g st = Inl e" by blast
    have "g \<noteq> f"
    proof
      assume "g = f"
      with g(2) obtain e where "f st = Inl e" by blast
      with Inr show False by simp
    qed
    with g have "\<exists>f\<in>set fs. \<forall>st. \<exists>e. f st = Inl e" by auto
    from Cons.IH [OF this, of st1] Inr show ?thesis by simp
  qed
qed

lemma labeling_TypeError: "labelingFlowNode n st = Inl e \<Longrightarrow> e = TypeError"
proof (induction n arbitrary: st e)
  case (NIf r s bs ow m nx)
  have b: "\<forall>f\<in>set (map (\<lambda>b. snd b) (map (map_prod id labelingFlowNode) bs)).
             \<forall>st e. f st = Inl e \<longrightarrow> e = TypeError"
    using NIf.IH(1) by (auto simp: prod_set_defs)
  show ?case
  proof (cases "forEachL (map (\<lambda>b. snd b) (map (map_prod id labelingFlowNode) bs)) (addNode r st)")
    case (Inl e')
    with NIf.prems have "e' = e" by simp
    with forEachL_TypeError [OF b Inl] show ?thesis by simp
  next
    case (Inr st1)
    with NIf.prems NIf.IH(2) show ?thesis by (cases ow) auto
  qed
next
  case (NSwitch r s bs ow m nx)
  have b: "\<forall>f\<in>set (map (\<lambda>b. snd b) (map (map_prod id labelingFlowNode) bs)).
             \<forall>st e. f st = Inl e \<longrightarrow> e = TypeError"
    using NSwitch.IH(1) by (auto simp: prod_set_defs)
  show ?case
  proof (cases "forEachL (map (\<lambda>b. snd b) (map (map_prod id labelingFlowNode) bs)) (addNode r st)")
    case (Inl e')
    with NSwitch.prems have "e' = e" by simp
    with forEachL_TypeError [OF b Inl] show ?thesis by simp
  next
    case (Inr st1)
    with NSwitch.prems NSwitch.IH(2) show ?thesis by (cases ow) auto
  qed
next
  case (NBlock r ns nx m)
  have b: "\<forall>f\<in>set (map labelingFlowNode ns). \<forall>st e. f st = Inl e \<longrightarrow> e = TypeError"
    using NBlock.IH by auto
  show ?case
  proof (cases "forEachL (map labelingFlowNode ns) st")
    case (Inl e')
    with NBlock.prems have "e' = e" by simp
    with forEachL_TypeError [OF b Inl] show ?thesis by simp
  next
    case (Inr st1)
    with NBlock.prems show ?thesis by (cases ns) auto
  qed
qed auto

lemma labeling_fails: "emptyNBlock n \<Longrightarrow> \<exists>e. labelingFlowNode n st = Inl e"
proof (induction n arbitrary: st)
  case (NIf r s bs ow m nx)
  show ?case
  proof (cases "forEachL (map (\<lambda>b. snd b) (map (map_prod id labelingFlowNode) bs)) (addNode r st)")
    case (Inl e)
    then show ?thesis by simp
  next
    case (Inr st1)
    have "\<not> (\<exists>b\<in>set bs. emptyNBlock (snd b))"
    proof
      assume "\<exists>b\<in>set bs. emptyNBlock (snd b)"
      then obtain b where b: "b \<in> set bs" "emptyNBlock (snd b)" by blast
      have "snd b \<in> Basic_BNFs.snds b" by (cases b) simp
      from NIf.IH(1) [OF b(1) this b(2)] have "\<forall>st. \<exists>e. labelingFlowNode (snd b) st = Inl e"
        by blast
      with b(1) have "\<exists>f\<in>set (map (\<lambda>b. snd b) (map (map_prod id labelingFlowNode) bs)).
          \<forall>st. \<exists>e. f st = Inl e" unfolding snd_map_branches by auto
      from forEachL_fails [OF this, of "addNode r st"] Inr show False by simp
    qed
    with NIf.prems obtain b where "ow = Some b" "emptyNBlock b"
      by auto
    with NIf.IH(2) [of b st1] Inr show ?thesis by simp
  qed
next
  case (NSwitch r s bs ow m nx)
  show ?case
  proof (cases "forEachL (map (\<lambda>b. snd b) (map (map_prod id labelingFlowNode) bs)) (addNode r st)")
    case (Inl e)
    then show ?thesis by simp
  next
    case (Inr st1)
    have "\<not> (\<exists>b\<in>set bs. emptyNBlock (snd b))"
    proof
      assume "\<exists>b\<in>set bs. emptyNBlock (snd b)"
      then obtain b where b: "b \<in> set bs" "emptyNBlock (snd b)" by blast
      have "snd b \<in> Basic_BNFs.snds b" by (cases b) simp
      from NSwitch.IH(1) [OF b(1) this b(2)] have "\<forall>st. \<exists>e. labelingFlowNode (snd b) st = Inl e"
        by blast
      with b(1) have "\<exists>f\<in>set (map (\<lambda>b. snd b) (map (map_prod id labelingFlowNode) bs)).
          \<forall>st. \<exists>e. f st = Inl e" unfolding snd_map_branches by auto
      from forEachL_fails [OF this, of "addNode r st"] Inr show False by simp
    qed
    with NSwitch.prems obtain b where "ow = Some b" "emptyNBlock b"
      by auto
    with NSwitch.IH(2) [of b st1] Inr show ?thesis by simp
  qed
next
  case (NBlock r ns nx m)
  show ?case
  proof (cases "forEachL (map labelingFlowNode ns) st")
    case (Inl e)
    then show ?thesis by simp
  next
    case (Inr st1)
    have "\<not> (\<exists>x\<in>set ns. emptyNBlock x)"
    proof
      assume "\<exists>x\<in>set ns. emptyNBlock x"
      with NBlock.IH have "\<exists>f\<in>set (map labelingFlowNode ns). \<forall>st. \<exists>e. f st = Inl e" by auto
      from forEachL_fails [OF this, of st] Inr show False by simp
    qed
    with NBlock.prems have "ns = []" by auto
    with Inr show ?thesis by simp
  qed
qed auto

section \<open>Failures of flow analysis\<close>

lemma flowAnalyzePass_lowering_fails:
  "toBlockFlowNode (map toFlowNode p) 0 initialState = Inl e \<Longrightarrow> flowAnalyzePass p = Inl e"
  by (simp add: flowAnalyzePass_def alloc_def initialState_def)

lemma flowAnalyzePass_labelling_fails:
  "toBlockFlowNode (map toFlowNode p) 0 initialState = Inr (root0, st2) \<Longrightarrow>
   labelingFlowNode (pushNode root0 (NReturn 0 implicitReturnStatement))
     \<lparr>idStore = (\<lambda>r. -1), count = 0\<rparr> = Inl e \<Longrightarrow>
   flowAnalyzePass p = Inl e"
  by (simp add: flowAnalyzePass_def alloc_def initialState_def)

lemma inScope_initial: "inScope initialState {} False"
  by (simp add: inScope_def initialState_def)

lemma lowering_fails:
  assumes "\<exists>s\<in>set p. compileError s {} False"
  shows "\<exists>e. toBlockFlowNode (map toFlowNode p) 0 initialState = Inl e \<and> flowError e"
proof -
  have k: "\<forall>f\<in>set (map toFlowNode p). keeps f" by (auto simp: toFlowNode_keeps)
  have "\<exists>f\<in>set (map toFlowNode p). failsIn f {} False"
    using assms toFlowNode_fails by auto
  from toBlockFlowNode_fails [OF k this inScope_initial, of 0] obtain e where
    e: "toBlockFlowNode (map toFlowNode p) 0 initialState = Inl e" by blast
  have "\<forall>f\<in>set (map toFlowNode p). throwsFlow f" by (auto simp: toFlowNode_throws)
  from toBlockFlowNode_throws [OF this e] e show ?thesis by blast
qed

lemma lowering_succeeds:
  assumes "\<forall>s\<in>set p. \<not> compileError s {} False"
  shows "\<exists>root0 st2. toBlockFlowNode (map toFlowNode p) 0 initialState = Inr (root0, st2)"
proof -
  have k: "\<forall>f\<in>set (map toFlowNode p). keeps f" by (auto simp: toFlowNode_keeps)
  have "\<forall>f\<in>set (map toFlowNode p). succeedsIn f {} False"
    using assms toFlowNode_succeeds by auto
  from toBlockFlowNode_succeeds [OF k this inScope_initial, of 0] show ?thesis .
qed

lemma labelling_root_fails:
  assumes "\<exists>s\<in>set p. hasEmptyBlock s"
    and "toBlockFlowNode (map toFlowNode p) 0 initialState = Inr (root0, st2)"
  shows "labelingFlowNode (pushNode root0 (NReturn 0 implicitReturnStatement)) s = Inl TypeError"
proof -
  from assms(2) obtain ns l st1 r m where t: "toNodes (map toFlowNode p) 0 initialState = Inr ((ns, l), st1)"
    and root0: "root0 = NBlock r ns 0 m"
    by (auto simp: toBlockFlowNode_def alloc_def split: sum.splits prod.splits)
  have "\<exists>f\<in>set (map toFlowNode p). yieldsEmpty f"
    using assms(1) toFlowNode_yields by auto
  from toNodes_yields [OF this t] have "\<exists>x\<in>set ns. emptyNBlock x" .
  then have "emptyNBlock (pushNode root0 (NReturn 0 implicitReturnStatement))"
    by (auto simp: root0 pushNode_def)
  from labeling_fails [OF this, of s] obtain e where
    e: "labelingFlowNode (pushNode root0 (NReturn 0 implicitReturnStatement)) s = Inl e" by blast
  from labeling_TypeError [OF e] e show ?thesis by simp
qed

lemma flowAnalyzePass_empty_block:
  assumes "\<exists>s\<in>set p. hasEmptyBlock s"
  shows "(\<exists>e. flowAnalyzePass p = Inl e)
    \<and> ((\<forall>s\<in>set p. \<not> compileError s {} False) \<longrightarrow> flowAnalyzePass p = Inl TypeError)"
proof
  show "\<exists>e. flowAnalyzePass p = Inl e"
  proof (cases "toBlockFlowNode (map toFlowNode p) 0 initialState")
    case (Inl e)
    from flowAnalyzePass_lowering_fails [OF this] show ?thesis by blast
  next
    case (Inr r)
    obtain root0 st2 where r: "r = (root0, st2)" by (cases r) auto
    from flowAnalyzePass_labelling_fails [OF Inr [unfolded r] labelling_root_fails [OF assms Inr [unfolded r]]]
    show ?thesis by blast
  qed
  show "(\<forall>s\<in>set p. \<not> compileError s {} False) \<longrightarrow> flowAnalyzePass p = Inl TypeError"
  proof
    assume "\<forall>s\<in>set p. \<not> compileError s {} False"
    from lowering_succeeds [OF this] obtain root0 st2 where
      l: "toBlockFlowNode (map toFlowNode p) 0 initialState = Inr (root0, st2)" by blast
    from flowAnalyzePass_labelling_fails [OF l labelling_root_fails [OF assms l]]
    show "flowAnalyzePass p = Inl TypeError" .
  qed
qed

lemma compile_flow_fails: "flowAnalyzePass p = Inl e \<Longrightarrow> compile p g = Inl e"
  by (simp add: compile_def)

text \<open>
  Claim C8. When the statement tree has a label declared twice in overlapping loop
  scopes, a break or continue with no enclosing loop, a labelled break whose label
  is not in scope, or a statement of unknown kind (anywhere, at any depth), flow
  analysis throws one of these four kinds of error, and so does the whole compile,
  whatever the built-in functions are.
\<close>

theorem C8_flow_analysis_throws:
  assumes "\<exists>s\<in>set p. compileError s {} False"
  shows "\<exists>e. flowAnalyzePass p = Inl e \<and> flowError e \<and> compile p g = Inl e"
proof -
  from lowering_fails [OF assms] obtain e where
    e: "toBlockFlowNode (map toFlowNode p) 0 initialState = Inl e" "flowError e" by blast
  from flowAnalyzePass_lowering_fails [OF e(1)] have "flowAnalyzePass p = Inl e" .
  with e(2) compile_flow_fails [of p e g] show ?thesis by blast
qed

theorem C8_flow_analysis_throws_witness:
  "(\<exists>s\<in>set duplicateLabels. compileError s {} False)
   \<and> (\<exists>s\<in>set breakOutside. compileError s {} False)
   \<and> (\<exists>s\<in>set continueOutside. compileError s {} False)
   \<and> (\<exists>s\<in>set breakUnknownLabel. compileError s {} False)
   \<and> (\<exists>s\<in>set unknownKind. compileError s {} False)
   \<and> (\<exists>e. flowAnalyzePass duplicateLabels = Inl e \<and> flowError e
          \<and> compile duplicateLabels (getBuiltInFunction Map.empty) = Inl e)
   \<and> (\<exists>e. flowAnalyzePass breakOutside = Inl e \<and> flowError e
          \<and> compile breakOutside (getBuiltInFunction Map.empty) = Inl e)
   \<and> (\<exists>e. flowAnalyzePass continueOutside = Inl e \<and> flowError e
          \<and> compile continueOutside (getBuiltInFunction Map.empty) = Inl e)
   \<and> (\<exists>e. flowAnalyzePass breakUnknownLabel = Inl e \<and> flowError e
          \<and> compile breakUnknownLabel (getBuiltInFunction Map.empty) = Inl e)
   \<and> (\<exists>e. flowAnalyzePass unknownKind = Inl e \<and> flowError e
          \<and> compile unknownKind (getBuiltInFunction Map.empty) = Inl e)"
proof -
  have h1: "\<exists>s\<in>set duplicateLabels. compileError s {} False"
    by (simp add: duplicateLabels_def)
  have h2: "\<exists>s\<in>set breakOutside. compileError s {} False"
    by (simp add: breakOutside_def)
  have h3: "\<exists>s\<in>set continueOutside. compileError s {} False"
    by (simp add: continueOutside_def)
  have h4: "\<exists>s\<in>set breakUnknownLabel. compileError s {} False"
    by (simp add: breakUnknownLabel_def)
  have h5: "\<exists>s\<in>set unknownKind. compileError s {} False"
    by (simp add: unknownKind_def)
  from h1 h2 h3 h4 h5
    C8_flow_analysis_throws [OF h1, of "getBuiltInFunction Map.empty"]
    C8_flow_analysis_throws [OF h2, of "getBuiltInFunction Map.empty"]
    C8_flow_analysis_throws [OF h3, of "getBuiltInFunction Map.empty"]
    C8_flow_analysis_throws [OF h4, of "getBuiltInFunction Map.empty"]
    C8_flow_analysis_throws [OF h5, of "getBuiltInFunction Map.empty"]
  show ?thesis by blast
qed

text \<open>
  Claim C10. Compilation is not total over well-formed statement trees. For every
  program in which an If branch body, a Switch branch body, an \<open>otherwise\<close> block or
  a loop body is the empty statement list (at any depth), compile throws; and when
  the program has none of the compile-time errors of the specification, lowering
  succeeds and it is the labelling walk that throws, a TypeError from reading the
  \<open>id\<close> of the first node of a Block without nodes. The root block alone is
  protected by the implicit return appended to it: the empty program compiles.
\<close>

theorem C10_empty_block_throws:
  assumes "\<exists>s\<in>set p. hasEmptyBlock s"
  shows "(\<exists>e. flowAnalyzePass p = Inl e \<and> compile p g = Inl e)
    \<and> ((\<forall>s\<in>set p. \<not> compileError s {} False) \<longrightarrow>
          (\<exists>root0 st2. toBlockFlowNode (map toFlowNode p) 0 initialState = Inr (root0, st2))
          \<and> flowAnalyzePass p = Inl TypeError \<and> compile p g = Inl TypeError)
    \<and> (\<exists>exe. compile [] g = Inr exe)"
proof (intro conjI impI)
  from flowAnalyzePass_empty_block [OF assms] obtain e where "flowAnalyzePass p = Inl e"
    by blast
  with compile_flow_fails [of p e g]
  show "\<exists>e. flowAnalyzePass p = Inl e \<and> compile p g = Inl e" by blast
next
  assume "\<forall>s\<in>set p. \<not> compileError s {} False"
  from lowering_succeeds [OF this]
  show "\<exists>root0 st2. toBlockFlowNode (map toFlowNode p) 0 initialState = Inr (root0, st2)" .
next
  assume "\<forall>s\<in>set p. \<not> compileError s {} False"
  with flowAnalyzePass_empty_block [OF assms]
  show "flowAnalyzePass p = Inl TypeError" by blast
next
  assume "\<forall>s\<in>set p. \<not> compileError s {} False"
  with flowAnalyzePass_empty_block [OF assms] have "flowAnalyzePass p = Inl TypeError" by blast
  from compile_flow_fails [OF this] show "compile p g = Inl TypeError" .
next
  show "\<exists>exe. compile [] g = Inr exe" by (simp add: compile_empty)
qed

theorem C10_empty_block_throws_witness:
  "(\<exists>s\<in>set emptyBranch. hasEmptyBlock s)
   \<and> \<not> (\<exists>s\<in>set emptyBranch. compileError s {} False)
   \<and> flowAnalyzePass emptyBranch = Inl TypeError
   \<and> compile emptyBranch (getBuiltInFunction Map.empty) = Inl TypeError
   \<and> (\<exists>exe. compile [] (getBuiltInFunction Map.empty) = Inr exe)"
proof -
  have h: "\<exists>s\<in>set emptyBranch. hasEmptyBlock s"
    by (simp add: emptyBranch_def emptyOrAny_def)
  have n: "\<forall>s\<in>set emptyBranch. \<not> compileError s {} False"
    by (simp add: emptyBranch_def)
  from h n C10_empty_block_throws [OF h, of "getBuiltInFunction Map.empty"]
  show ?thesis by blast
qed

section \<open>The caller's program counter during a call\<close>

text \<open>A step of the head frame changes the head frame or pushes one frame; the
  frames below the head are left as they are, also when the head frame is popped.\<close>

lemma iteratorNext_stack:
  assumes "iteratorNext I fuel c = Ok c1" and "callStack c = this # below"
  shows "\<exists>this1. callStack c1 = this1 # below
           \<or> (\<exists>new. callStack c1 = new # this1 # below)"
  using assms
  by (auto simp: iteratorNext_def split: result.splits prod.splits op.splits sum.splits)

lemma machineStep_keeps_below:
  assumes "machineStep I fuel c1 = Ok (Inl c2)" and "d < length (callStack c1)"
  shows "d \<le> length (callStack c2) \<and> framesBelow d c2 = framesBelow d c1"
proof -
  from assms(2) obtain this below where st: "callStack c1 = this # below"
    by (cases "callStack c1") auto
  with assms(2) have d: "d \<le> length below" by simp
  show ?thesis
  proof (cases "0 \<le> current this")
    case True
    with assms(1) st obtain c' where "iteratorNext I fuel c1 = Ok c'" "c2 = c'"
      by (auto simp: machineStep_def split: result.splits)
    with iteratorNext_stack [OF _ st] obtain this1 where
      "callStack c2 = this1 # below \<or> (\<exists>new. callStack c2 = new # this1 # below)" by blast
    with st d show ?thesis by (auto simp: framesBelow_def Suc_diff_le)
  next
    case False
    with assms(1) st have "callStack c2 = below"
      by (auto simp: machineStep_def split: list.splits)
    with st d show ?thesis by (auto simp: framesBelow_def Suc_diff_le)
  qed
qed

lemma calleeRuns_keeps_below:
  assumes "calleeRuns I d c c2"
  shows "d < length (callStack c2) \<and> framesBelow d c2 = framesBelow d c"
  using assms
proof (induction rule: calleeRuns.induct)
  case (start c)
  then show ?case by simp
next
  case (step c c1 fuel c2)
  from machineStep_keeps_below [OF step.hyps(2)] step.IH step.hyps(3)
  show ?case by simp
qed

lemma framesBelow_decompose:
  assumes "d < length (callStack c2)" and "framesBelow d c2 = fs" and "length fs = d"
  shows "\<exists>above. callStack c2 = above @ fs \<and> above \<noteq> []"
proof -
  have "callStack c2 = take (length (callStack c2) - d) (callStack c2) @ framesBelow d c2"
    by (simp add: framesBelow_def)
  moreover have "take (length (callStack c2) - d) (callStack c2) \<noteq> []"
    using assms(1) by auto
  ultimately show ?thesis using assms(2) by metis
qed

text \<open>
  Claim C7. When the step of the head frame yields the opcode Call(name, params, n)
  and the named global function exists, one transition of the machine leaves the
  callee frame on top of the stack, at node 0 and with no step executed, directly
  above the caller frame, whose program counter is n already. For as long as the
  callee runs (whatever it calls in turn, until its frame is popped) the caller
  frame stays on the stack unchanged, so its program counter is n throughout, and
  this is not the id of the calling node when n differs from that id.
\<close>

theorem C7_caller_advanced_before_callee:
  assumes "callStack c = this # below"
    and "0 \<le> current this"
    and "execNode (executable this) (current this) fuel
           \<lparr>args = parameters this, local = locals this, env = ctxEnv c\<rparr>
         = Ok (OpCall nm params n, sc)"
    and "findGlobalFunction I nm = Inr exe"
  shows "\<exists>c1 caller.
      machineStep I fuel c = Ok (Inl c1)
      \<and> callStack c1 = newIterator exe params # caller # below
      \<and> current caller = n
      \<and> current (newIterator exe params) = 0
      \<and> (\<forall>c2. calleeRuns I (Suc (length below)) c1 c2 \<longrightarrow>
            (\<exists>above. callStack c2 = above @ caller # below \<and> above \<noteq> []))
      \<and> (n \<noteq> current this \<longrightarrow> current caller \<noteq> current this)"
proof -
  define caller where "caller = this\<lparr>parameters := args sc, locals := local sc, current := n\<rparr>"
  define c1 where "c1 = c\<lparr>ctxEnv := env sc, callStack := newIterator exe params # caller # below\<rparr>"
  have step: "machineStep I fuel c = Ok (Inl c1)"
    using assms by (simp add: machineStep_def iteratorNext_def c1_def caller_def)
  have stack: "callStack c1 = newIterator exe params # caller # below"
    by (simp add: c1_def)
  have inv: "\<exists>above. callStack c2 = above @ caller # below \<and> above \<noteq> []"
    if "calleeRuns I (Suc (length below)) c1 c2" for c2
  proof -
    from calleeRuns_keeps_below [OF that]
    have "Suc (length below) < length (callStack c2)"
      and "framesBelow (Suc (length below)) c2 = framesBelow (Suc (length below)) c1" by simp_all
    moreover have "framesBelow (Suc (length below)) c1 = caller # below"
      by (simp add: framesBelow_def stack)
    ultimately show ?thesis
      using framesBelow_decompose [of "Suc (length below)" c2 "caller # below"] by simp
  qed
  from step stack inv show ?thesis
    by (intro exI [of _ c1] exI [of _ caller]) (auto simp: caller_def newIterator_def)
qed

theorem C7_caller_advanced_before_callee_witness:
  "\<exists>c1 caller c2.
      machineStep callingInterpreter 5 callingContext = Ok (Inl c1)
      \<and> callStack c1 = [newIterator nopExecutable [], caller]
      \<and> current caller = 1
      \<and> machineStep callingInterpreter 4 c1 = Ok (Inl c2)
      \<and> calleeRuns callingInterpreter 1 c1 c2
      \<and> (\<exists>above. callStack c2 = above @ [caller] \<and> above \<noteq> [])"
proof -
  have h1: "callStack callingContext = newIterator callingExecutable [] # []"
    by (simp add: callingContext_def)
  have h2: "0 \<le> current (newIterator callingExecutable [])"
    by (simp add: newIterator_def)
  have h3: "execNode (executable (newIterator callingExecutable []))
              (current (newIterator callingExecutable [])) 5
              \<lparr>args = parameters (newIterator callingExecutable []),
               local = locals (newIterator callingExecutable []),
               env = ctxEnv callingContext\<rparr>
            = Ok (OpCall ''nop'' [] 1, \<lparr>args = [], local = [], env = []\<rparr>)"
    by (simp add: newIterator_def callingExecutable_def callingContext_def execNode_def
        externCallStep_def)
  have h4: "findGlobalFunction callingInterpreter ''nop'' = Inr nopExecutable"
    by (simp add: findGlobalFunction_def callingInterpreter_def)
  from C7_caller_advanced_before_callee [OF h1 h2 h3 h4] obtain c1 caller where
    s1: "machineStep callingInterpreter 5 callingContext = Ok (Inl c1)"
    and st: "callStack c1 = newIterator nopExecutable [] # caller # []"
    and cur: "current caller = 1"
    and inv: "\<forall>c2. calleeRuns callingInterpreter (Suc (length ([]::iterator list))) c1 c2 \<longrightarrow>
               (\<exists>above. callStack c2 = above @ caller # [] \<and> above \<noteq> [])"
    by blast
  obtain c2 where s2: "machineStep callingInterpreter 4 c1 = Ok (Inl c2)"
    and st2: "length (callStack c2) = 2"
    using st
    by (simp add: machineStep_def iteratorNext_def newIterator_def nopExecutable_def execNode_def
        returnStep_def)
  have "calleeRuns callingInterpreter 1 c1 c1"
    by (rule calleeRuns.start) (simp add: st)
  from calleeRuns.step [OF this s2] st2 have run: "calleeRuns callingInterpreter 1 c1 c2" by simp
  with inv have "\<exists>above. callStack c2 = above @ [caller] \<and> above \<noteq> []" by simp
  with s1 st cur s2 run show ?thesis by blast
qed

section \<open>Switch: selection, chained branch blocks, fallthrough\<close>

text \<open>Objects created by the lowering are new: the successor handed to a statement
  existed before, so the successor that the lowering gives to the block of a Switch
  branch (the first lowering of the same body) is never the successor of the Switch,
  in any program.\<close>

lemma allocatesD:
  "allocates f \<Longrightarrow> successor < fresh st \<Longrightarrow> f successor st = Inr (n, st') \<Longrightarrow>
     fresh st \<le> refOf n \<and> refOf n < fresh st' \<and> chained n"
  unfolding allocates_def by blast

lemma switchSuccessors_branches:
  "concat (map snd (map (map_prod id switchSuccessors) bs))
     = concat (map (\<lambda>b. switchSuccessors (snd b)) bs)"
  by (induction bs) auto

lemma chained_Block: "chained (NBlock r ns n m) = (\<forall>x\<in>set ns. chained x)"
  by (auto simp: chained_def)

lemma chained_If:
  "chained (NIf r s bs ow m n) =
     ((\<forall>b\<in>set bs. chained (snd b)) \<and> (\<forall>b. ow = Some b \<longrightarrow> chained b))"
  by (cases ow) (auto simp: chained_def switchSuccessors_branches)

lemma chained_Switch:
  "chained (NSwitch r s bs ow m n) =
     ((\<forall>b\<in>set bs. blockNext (snd b) \<noteq> Some n) \<and> (\<forall>b\<in>set bs. chained (snd b))
      \<and> (\<forall>b. ow = Some b \<longrightarrow> chained b))"
  by (cases ow) (force simp: chained_def switchSuccessors_branches image_iff)+

lemma chained_simps [simp]:
  "chained (NNormal r s n)" "chained (NExternCall r s n)" "chained (NReturn r s)"
  "chained (NJump r s n)" "chained (NExit r s)"
  "chained (NLoop r s b m n) = chained b" "chained (NLoopInitializer r l) = chained l"
  by (simp_all add: chained_def)

lemma toNodes_allocates:
  assumes "\<forall>f\<in>set fs. allocates f" and "successor < fresh st"
    and "toNodes fs successor st = Inr ((ns, l), st')"
  shows "fresh st \<le> fresh st' \<and> l < fresh st'
     \<and> (\<forall>n\<in>set ns. fresh st \<le> refOf n \<and> refOf n < fresh st' \<and> chained n)"
  using assms
proof (induction fs arbitrary: ns l st')
  case Nil
  then show ?case by simp
next
  case (Cons f fs)
  from Cons.prems(3) obtain ns1 l1 st1 n where
    t: "toNodes fs successor st = Inr ((ns1, l1), st1)" and h: "f l1 st1 = Inr (n, st')"
    and ns: "ns = n # ns1" and l: "l = refOf n"
    by (auto split: sum.splits prod.splits)
  from Cons.IH [OF _ Cons.prems(2) t] Cons.prems(1)
  have ih: "fresh st \<le> fresh st1" "l1 < fresh st1"
    "\<forall>n\<in>set ns1. fresh st \<le> refOf n \<and> refOf n < fresh st1 \<and> chained n" by simp_all
  from Cons.prems(1) have "allocates f" by simp
  from allocatesD [OF this ih(2) h]
  have n: "fresh st1 \<le> refOf n" "refOf n < fresh st'" "chained n" by simp_all
  with ih ns l show ?case by fastforce
qed

lemma toBlockFlowNode_allocates:
  assumes "\<forall>f\<in>set fs. allocates f" and "successor < fresh st"
    and "toBlockFlowNode fs successor st = Inr (n, st')"
  shows "fresh st \<le> refOf n \<and> refOf n < fresh st' \<and> chained n \<and> blockNext n = Some successor"
proof -
  from assms(3) obtain ns l st1 m where t: "toNodes fs successor st = Inr ((ns, l), st1)"
    and n: "n = NBlock (fresh st1) ns successor m" and st': "st' = st1\<lparr>fresh := Suc (fresh st1)\<rparr>"
    by (auto simp: toBlockFlowNode_def alloc_def split: sum.splits prod.splits)
  from toNodes_allocates [OF assms(1,2) t] n st' show ?thesis
    by (auto simp: chained_Block)
qed

lemma toOtherwise_allocates:
  assumes "\<forall>fs\<in>set_option ow. \<forall>f\<in>set fs. allocates f" and "successor < fresh st"
    and "toOtherwise ow successor st = Inr (ot, st')"
  shows "fresh st \<le> fresh st' \<and> (\<forall>b. ot = Some b \<longrightarrow>
           fresh st \<le> refOf b \<and> refOf b < fresh st' \<and> chained b)"
proof (cases ow)
  case None
  with assms(3) show ?thesis by (simp add: toOtherwise_def)
next
  case (Some fs)
  with assms(3) obtain n where t: "toBlockFlowNode fs successor st = Inr (n, st')"
    and ot: "ot = Some n"
    by (auto simp: toOtherwise_def split: sum.splits prod.splits)
  from toBlockFlowNode_allocates [OF _ assms(2) t] assms(1) Some ot show ?thesis by auto
qed

lemma ifBranches_allocates:
  assumes "\<forall>br\<in>set brs. \<forall>f\<in>set (snd br). allocates f" and "successor < fresh st"
    and "ifBranches brs successor st = Inr (bs, st')"
  shows "fresh st \<le> fresh st' \<and> (\<forall>b\<in>set bs. chained (snd b))"
  using assms
proof (induction brs arbitrary: st bs)
  case Nil
  then show ?case by simp
next
  case (Cons br brs)
  from Cons.prems(3) obtain n st1 bs1 where
    b: "toBlockFlowNode (snd br) successor st = Inr (n, st1)"
    and r: "ifBranches brs successor st1 = Inr (bs1, st')"
    and bs: "bs = (fst br, n) # bs1"
    by (auto split: sum.splits prod.splits)
  from toBlockFlowNode_allocates [OF _ Cons.prems(2) b] Cons.prems(1)
  have n: "fresh st \<le> refOf n" "refOf n < fresh st1" "chained n" by simp_all
  then have "successor < fresh st1" using Cons.prems(2) by simp
  from Cons.IH [OF _ this r] Cons.prems(1)
  have "fresh st1 \<le> fresh st'" "\<forall>b\<in>set bs1. chained (snd b)" by simp_all
  with n bs show ?case by simp
qed

lemma switchBranches_allocates:
  assumes "\<forall>br\<in>set brs. \<forall>f\<in>set (snd br). allocates f" and "last0 < fresh st"
    and "switchBranches brs last0 st = Inr ((bs, l), st')"
  shows "fresh st \<le> fresh st' \<and> l < fresh st'
     \<and> (\<forall>b\<in>set bs. chained (snd b) \<and> (\<exists>c. blockNext (snd b) = Some c \<and> fresh st \<le> c))"
  using assms
proof (induction brs arbitrary: st' bs l)
  case Nil
  then show ?case by simp
next
  case (Cons br brs)
  from Cons.prems(3) obtain bs1 l1 st1 ch st2 n where
    r: "switchBranches brs last0 st = Inr ((bs1, l1), st1)"
    and c: "toBlockFlowNode (snd br) l1 st1 = Inr (ch, st2)"
    and b: "toBlockFlowNode (snd br) (refOf ch) st2 = Inr (n, st')"
    and bs: "bs = (fst br, n) # bs1" and l: "l = refOf ch"
    by (auto split: sum.splits prod.splits)
  from Cons.IH [OF _ Cons.prems(2) r] Cons.prems(1)
  have ih: "fresh st \<le> fresh st1" "l1 < fresh st1"
    "\<forall>b\<in>set bs1. chained (snd b) \<and> (\<exists>c. blockNext (snd b) = Some c \<and> fresh st \<le> c)"
    by simp_all
  from toBlockFlowNode_allocates [OF _ ih(2) c] Cons.prems(1)
  have ch: "fresh st1 \<le> refOf ch" "refOf ch < fresh st2" by simp_all
  from toBlockFlowNode_allocates [OF _ ch(2) b] Cons.prems(1)
  have n: "fresh st2 \<le> refOf n" "refOf n < fresh st'" "chained n"
    "blockNext n = Some (refOf ch)" by simp_all
  from ih ch n bs l show ?case by auto
qed

lemma registerLabel_fresh:
  "registerLabel label loopNode st = Inr st3 \<Longrightarrow> fresh st3 = fresh st"
  by (cases label) (auto simp: registerLabel_def split: if_splits)

lemma unregisterLabel_fresh [simp]: "fresh (unregisterLabel label st) = fresh st"
  by (cases label) (auto simp: unregisterLabel_def)

lemma toLoop_allocates:
  assumes "\<forall>f\<in>set body. allocates f" and "successor < fresh st"
    and "toLoop statement skip ini label body successor st = Inr (n, st')"
  shows "fresh st \<le> refOf n \<and> refOf n < fresh st' \<and> chained n"
proof -
  from assms(3) obtain st3 where reg:
    "registerLabel label (Suc (fresh st)) (st\<lparr>fresh := Suc (Suc (fresh st))\<rparr>) = Inr st3"
    by (cases "registerLabel label (Suc (fresh st)) (st\<lparr>fresh := Suc (Suc (fresh st))\<rparr>)")
      (simp_all add: toLoop_def toBlockFlowNode_def [of "[]"] alloc_def)
  from assms(3) reg obtain bodyNode st5 where body:
    "toBlockFlowNode body (Suc (fresh st))
       (st3\<lparr>breakableNodeStack := Suc (fresh st) # breakableNodeStack st3\<rparr>) = Inr (bodyNode, st5)"
    by (cases "toBlockFlowNode body (Suc (fresh st))
       (st3\<lparr>breakableNodeStack := Suc (fresh st) # breakableNodeStack st3\<rparr>)")
      (auto simp: toLoop_def toBlockFlowNode_def [of "[]"] alloc_def)
  from registerLabel_fresh [OF reg] have f3: "fresh st3 = Suc (Suc (fresh st))" by simp
  then have "Suc (fresh st) < fresh (st3\<lparr>breakableNodeStack := Suc (fresh st) # breakableNodeStack st3\<rparr>)"
    by simp
  from toBlockFlowNode_allocates [OF assms(1) this body] f3
  have b: "Suc (Suc (fresh st)) \<le> refOf bodyNode" "refOf bodyNode < fresh st5" "chained bodyNode"
    by simp_all
  from assms(3) reg body have
    "(n = bodyNode \<and> fresh st' = fresh st5)
     \<or> (\<exists>m. n = NLoop (Suc (fresh st)) statement bodyNode m successor \<and> fresh st' = fresh st5)
     \<or> (\<exists>m. n = NLoopInitializer (fresh st5) (NLoop (Suc (fresh st)) statement bodyNode m successor)
           \<and> fresh st' = Suc (fresh st5))"
    by (cases ini)
      (auto simp: toLoop_def toBlockFlowNode_def [of "[]"] alloc_def Let_def split: if_splits)
  with b show ?thesis by auto
qed

lemma toFlowNode_allocates: "allocates (toFlowNode s)"
proof (induction s)
  case (SIf brs ow)
  have b: "\<forall>br\<in>set (map (map_prod id (map toFlowNode)) brs). \<forall>f\<in>set (snd br). allocates f"
    using SIf.IH(1) by (auto simp: prod_set_defs)
  have o: "\<forall>fs\<in>set_option (map_option (map toFlowNode) ow). \<forall>f\<in>set fs. allocates f"
    using SIf.IH(2) by (cases ow) auto
  show ?case
    unfolding allocates_def
  proof (intro allI impI)
    fix successor st n st'
    assume s: "successor < fresh st" and a: "toFlowNode (SIf brs ow) successor st = Inr (n, st')"
    from a obtain bs st1 ot st2 m where
      i: "ifBranches (map (map_prod id (map toFlowNode)) brs) successor st = Inr (bs, st1)"
      and t: "toOtherwise (map_option (map toFlowNode) ow) successor st1 = Inr (ot, st2)"
      and n: "n = NIf (fresh st2) (SIf brs ow) bs ot m successor"
      and st': "st' = st2\<lparr>fresh := Suc (fresh st2)\<rparr>"
      by (auto simp: alloc_def split: sum.splits prod.splits)
    from ifBranches_allocates [OF b s i] have i1: "fresh st \<le> fresh st1" "\<forall>b\<in>set bs. chained (snd b)"
      by simp_all
    with s have "successor < fresh st1" by simp
    from toOtherwise_allocates [OF o this t]
    have "fresh st1 \<le> fresh st2" "\<forall>b. ot = Some b \<longrightarrow> chained b" by simp_all
    with i1 n st' show "fresh st \<le> refOf n \<and> refOf n < fresh st' \<and> chained n"
      by (simp add: chained_If)
  qed
next
  case (SSwitch p brs ow)
  have b: "\<forall>br\<in>set (map (map_prod id (map toFlowNode)) brs). \<forall>f\<in>set (snd br). allocates f"
    using SSwitch.IH(1) by (auto simp: prod_set_defs)
  have o: "\<forall>fs\<in>set_option (map_option (map toFlowNode) ow). \<forall>f\<in>set fs. allocates f"
    using SSwitch.IH(2) by (cases ow) auto
  show ?case
    unfolding allocates_def
  proof (intro allI impI)
    fix successor st n st'
    assume s: "successor < fresh st" and a: "toFlowNode (SSwitch p brs ow) successor st = Inr (n, st')"
    from a obtain bs l st1 ot st2 m where
      t: "toOtherwise (map_option (map toFlowNode) ow) successor st = Inr (ot, st1)"
      and i: "switchBranches (map (map_prod id (map toFlowNode)) brs)
               (case ot of None \<Rightarrow> successor | Some x \<Rightarrow> refOf x) st1 = Inr ((bs, l), st2)"
      and n: "n = NSwitch (fresh st2) (SSwitch p brs ow) bs ot m successor"
      and st': "st' = st2\<lparr>fresh := Suc (fresh st2)\<rparr>"
      by (auto simp: alloc_def split: sum.splits prod.splits)
    from toOtherwise_allocates [OF o s t]
    have o1: "fresh st \<le> fresh st1"
      "\<forall>b. ot = Some b \<longrightarrow> fresh st \<le> refOf b \<and> refOf b < fresh st1 \<and> chained b" by simp_all
    with s have "(case ot of None \<Rightarrow> successor | Some x \<Rightarrow> refOf x) < fresh st1"
      by (cases ot) auto
    from switchBranches_allocates [OF b this i]
    have sb: "fresh st1 \<le> fresh st2"
      "\<forall>b\<in>set bs. chained (snd b) \<and> (\<exists>c. blockNext (snd b) = Some c \<and> fresh st1 \<le> c)"
      by simp_all
    have "\<forall>b\<in>set bs. blockNext (snd b) \<noteq> Some successor"
    proof
      fix b assume "b \<in> set bs"
      with sb(2) obtain c where "blockNext (snd b) = Some c" "fresh st1 \<le> c" by blast
      with s o1(1) show "blockNext (snd b) \<noteq> Some successor" by auto
    qed
    with o1 sb n st' show "fresh st \<le> refOf n \<and> refOf n < fresh st' \<and> chained n"
      by (simp add: chained_Switch)
  qed
next
  case (SLoop skip ini cond iter label body)
  have b: "\<forall>f\<in>set (map toFlowNode body). allocates f" using SLoop.IH by auto
  show ?case
    unfolding allocates_def using toLoop_allocates [OF b] by auto
next
  case (SBreak label)
  show ?case
    by (cases label)
      (auto simp: allocates_def toBreak_def alloc_def split: list.splits option.splits)
next
  case SContinue
  show ?case
    by (auto simp: allocates_def toContinue_def alloc_def split: list.splits)
qed (auto simp: allocates_def alloc_def)

lemma flowAnalyzePass_chained:
  assumes "flowAnalyzePass p = Inr (root, ids)"
  shows "chained root"
proof -
  from assms obtain root0 st2 where
    low: "toBlockFlowNode (map toFlowNode p) 0 initialState = Inr (root0, st2)"
    and root: "root = pushNode root0 (NReturn 0 implicitReturnStatement)"
    by (auto simp: flowAnalyzePass_def alloc_def initialState_def Let_def
        split: sum.splits prod.splits)
  from low obtain ns l st1 m where t: "toNodes (map toFlowNode p) 0 initialState = Inr ((ns, l), st1)"
    and root0: "root0 = NBlock (fresh st1) ns 0 m"
    by (auto simp: toBlockFlowNode_def alloc_def split: sum.splits prod.splits)
  have "\<forall>f\<in>set (map toFlowNode p). allocates f" by (auto simp: toFlowNode_allocates)
  from toNodes_allocates [OF this _ t] have "\<forall>n\<in>set ns. chained n"
    by (simp add: initialState_def)
  with root root0 show ?thesis by (auto simp: pushNode_def chained_Block)
qed

text \<open>The step of a Switch node selects the first branch whose condition is strictly
  equal to the pattern, else the \<open>otherwise\<close> block, else the successor. The code of a
  fused Switch has one case clause per branch and no \<open>break\<close>: from the first matching
  branch on, the bodies of all later branches and the \<open>otherwise\<close> block run.\<close>

lemma addExec_nth: "0 \<le> i \<Longrightarrow> addExec i f nodeMap ! nat i = Some f"
  by (auto simp: addExec_def nth_append)

lemma switchStep_selects:
  assumes "snd (pattern sc) = sc" and "\<forall>b\<in>set branches. snd (fst b sc) = sc"
  shows "switchStep pattern branches otherwiseId nextId fuel sc =
     Ok (OpMove (case find (\<lambda>b. fst (pattern sc) = fst (fst b sc)) branches of
                   Some b \<Rightarrow> snd b
                 | None \<Rightarrow> (case otherwiseId of Some i \<Rightarrow> i | None \<Rightarrow> nextId)), sc)"
  using assms
proof (induction branches)
  case Nil
  then show ?case by (cases otherwiseId) simp_all
next
  case (Cons b branches)
  obtain p where p: "pattern sc = (p, sc)" using Cons.prems(1) by (cases "pattern sc") simp
  obtain c where c: "fst b sc = (c, sc)" using Cons.prems(2) by (cases "fst b sc") simp
  from Cons.IH Cons.prems p c show ?case by simp
qed

lemma find_branchIds:
  "find (\<lambda>b. P (fst b)) (branchIds ids bs) =
     map_option (\<lambda>b. (fst b, ids (refOf (snd b)))) (find (\<lambda>b. P (fst b)) bs)"
  by (induction bs) (auto simp: branchIds_def)

lemma emitNode_Switch_step:
  assumes e: "emitNode (NSwitch r (SSwitch p brs0 ow0) bs ow m nx) ids g nodeMap = Inr nodeMap'"
    and r: "0 \<le> ids r"
    and pure: "snd (p sc) = sc" "\<forall>b\<in>set bs. snd (fst b sc) = sc"
  shows "\<exists>step. nodeMap' ! nat (ids r) = Some step
     \<and> step fuel sc =
         Ok (OpMove (case find (\<lambda>b. fst (p sc) = fst (fst b sc)) bs of
                       Some b \<Rightarrow> ids (refOf (snd b))
                     | None \<Rightarrow> (case ow of Some b \<Rightarrow> ids (refOf b) | None \<Rightarrow> ids nx)), sc)"
proof -
  let ?step = "switchStep p (branchIds ids bs) (map_option (\<lambda>b. ids (refOf b)) ow) (ids nx)"
  from e obtain nodeMap2 where "nodeMap' = addExec (ids r) ?step nodeMap2"
    by (auto split: sum.splits)
  with r have n: "nodeMap' ! nat (ids r) = Some ?step" by (simp add: addExec_nth)
  have "\<forall>b\<in>set (branchIds ids bs). snd (fst b sc) = sc"
    using pure(2) by (auto simp: branchIds_def)
  from switchStep_selects [of p sc "branchIds ids bs", OF pure(1) this]
  have "?step fuel sc =
     Ok (OpMove (case find (\<lambda>b. fst (p sc) = fst (fst b sc)) (branchIds ids bs) of
                   Some b \<Rightarrow> snd b
                 | None \<Rightarrow> (case map_option (\<lambda>b. ids (refOf b)) ow of Some i \<Rightarrow> i
                             | None \<Rightarrow> ids nx)), sc)" .
  also have "find (\<lambda>b. fst (p sc) = fst (fst b sc)) (branchIds ids bs) =
     map_option (\<lambda>b. (fst b, ids (refOf (snd b)))) (find (\<lambda>b. fst (p sc) = fst (fst b sc)) bs)"
    by (rule find_branchIds [of "\<lambda>e. fst (p sc) = fst (e sc)"])
  finally have "?step fuel sc =
         Ok (OpMove (case find (\<lambda>b. fst (p sc) = fst (fst b sc)) bs of
                       Some b \<Rightarrow> ids (refOf (snd b))
                     | None \<Rightarrow> (case ow of Some b \<Rightarrow> ids (refOf b) | None \<Rightarrow> ids nx)), sc)"
    by (cases ow; cases "find (\<lambda>b. fst (p sc) = fst (fst b sc)) bs") simp_all
  with n show ?thesis by blast
qed

lemma execSeq_single: "execSeq ex [s] sc = ex s sc"
  by (auto split: result.splits completion.splits)

lemma execCases_falls_through:
  assumes "\<forall>c\<in>set cs. \<exists>v. evalJS (fst c) sc = Ok (v, sc)"
  shows "execCases ex d cs ow sc =
     execSeq ex (map snd (dropWhile (\<lambda>c. evalJS (fst c) sc \<noteq> Ok (d, sc)) cs)
                 @ (case ow of None \<Rightarrow> [] | Some s \<Rightarrow> [s])) sc"
  using assms
proof (induction cs)
  case Nil
  show ?case by (cases ow) (simp_all add: execSeq_single del: execSeq.simps(2))
next
  case (Cons c cs)
  from Cons.prems obtain v where v: "evalJS (fst c) sc = Ok (v, sc)" by auto
  show ?case
  proof (cases "v = d")
    case True
    with v show ?thesis by (simp del: execSeq.simps)
  next
    case False
    with v Cons.IH Cons.prems show ?thesis by (simp del: execSeq.simps)
  qed
qed

lemma collectE_nth:
  "collectE (map f xs) = Inr ys \<Longrightarrow>
     length ys = length xs \<and> (\<forall>i<length xs. f (xs ! i) = Inr (ys ! i))"
proof (induction xs arbitrary: ys)
  case Nil
  then show ?case by simp
next
  case (Cons x xs)
  from Cons.prems obtain y ys1 where y: "f x = Inr y" and c: "collectE (map f xs) = Inr ys1"
    and ys: "ys = y # ys1"
    by (auto split: sum.splits)
  from Cons.IH [OF c] y ys show ?case by (auto simp: nth_Cons split: nat.splits)
qed

lemma emitJITCode_Switch:
  assumes "emitJITCode (NSwitch r (SSwitch p brs0 ow0) bs ow m nx) ids entryId g = Inr code"
  shows "\<exists>cs oc. code = JSwitch (JHost p) cs oc \<and> length cs = length bs
     \<and> (\<forall>i<length bs. fst (cs ! i) = JHost (fst (bs ! i))
            \<and> emitJITCode (snd (bs ! i)) ids entryId g = Inr (snd (cs ! i)))
     \<and> (case ow of None \<Rightarrow> oc = None
         | Some b \<Rightarrow> \<exists>c. emitJITCode b ids entryId g = Inr c \<and> oc = Some c)"
proof -
  let ?f = "\<lambda>b. case emitJITCode (snd b) ids entryId g of Inl e \<Rightarrow> Inl e
                 | Inr code \<Rightarrow> Inr (JHost (fst b), code)"
  have m: "map (\<lambda>b. case snd b ids entryId g of Inl e \<Rightarrow> Inl e
                     | Inr code \<Rightarrow> Inr (JHost (fst b), code))
             (map (map_prod id emitJITCode) bs) = map ?f bs"
    by (induction bs) (auto split: sum.splits)
  from assms obtain cs oc where c: "collectE (map ?f bs) = Inr cs"
    and code: "code = JSwitch (JHost p) cs oc"
    and oc: "case ow of None \<Rightarrow> oc = None
         | Some b \<Rightarrow> \<exists>c. emitJITCode b ids entryId g = Inr c \<and> oc = Some c"
    unfolding emitJITCode.simps m
    by (cases ow) (auto split: sum.splits)
  from collectE_nth [OF c] have l: "length cs = length bs"
    and n: "\<forall>i<length bs. ?f (bs ! i) = Inr (cs ! i)" by simp_all
  have "\<forall>i<length bs. fst (cs ! i) = JHost (fst (bs ! i))
            \<and> emitJITCode (snd (bs ! i)) ids entryId g = Inr (snd (cs ! i))"
  proof (intro allI impI)
    fix i assume "i < length bs"
    with n have "?f (bs ! i) = Inr (cs ! i)" by simp
    then show "fst (cs ! i) = JHost (fst (bs ! i))
            \<and> emitJITCode (snd (bs ! i)) ids entryId g = Inr (snd (cs ! i))"
      by (cases "cs ! i") (auto split: sum.splits)
  qed
  with code l oc show ?thesis by blast
qed

lemma dropWhile_cases:
  assumes l: "length cs = length bs"
    and f: "\<forall>i<length bs. fst (cs ! i) = JHost (fst (bs ! i))"
    and pure: "\<forall>b\<in>set bs. snd (fst b sc) = sc"
  shows "dropWhile (\<lambda>c. evalJS (fst c) sc \<noteq> Ok (d, sc)) cs
           = drop (length (takeWhile (\<lambda>b. fst (fst b sc) \<noteq> d) bs)) cs"
  using assms
proof (induction cs arbitrary: bs)
  case Nil
  then show ?case by simp
next
  case (Cons c cs)
  then obtain b bs1 where bs: "bs = b # bs1" by (cases bs) auto
  with Cons.prems have l1: "length cs = length bs1"
    and c: "fst c = JHost (fst b)"
    and f1: "\<forall>i<length bs1. fst (cs ! i) = JHost (fst (bs1 ! i))"
    and p: "snd (fst b sc) = sc" "\<forall>b\<in>set bs1. snd (fst b sc) = sc"
    by (auto simp: nth_Cons split: nat.splits)
  have "(evalJS (fst c) sc \<noteq> Ok (d, sc)) = (fst (fst b sc) \<noteq> d)"
    using c p(1) by (cases "fst b sc") (auto simp: evalJS_def)
  with Cons.IH [OF l1 f1 p(2)] bs show ?case by simp
qed

lemma cases_pure:
  assumes "length cs = length bs"
    and "\<forall>i<length bs. fst (cs ! i) = JHost (fst (bs ! i))"
    and "\<forall>b\<in>set bs. snd (fst b sc) = sc"
  shows "\<forall>c\<in>set cs. \<exists>v. evalJS (fst c) sc = Ok (v, sc)"
proof
  fix c assume "c \<in> set cs"
  then obtain i where i: "i < length cs" "c = cs ! i" by (auto simp: in_set_conv_nth)
  with assms have "fst c = JHost (fst (bs ! i))" "snd (fst (bs ! i) sc) = sc" by auto
  then show "\<exists>v. evalJS (fst c) sc = Ok (v, sc)"
    by (cases "fst (bs ! i) sc") (auto simp: evalJS_def)
qed

lemma fused_Switch_falls_through:
  assumes e: "emitJITCode (NSwitch r (SSwitch p brs0 ow0) bs ow m nx) ids entryId g = Inr code"
    and pure: "snd (p sc) = sc" "\<forall>b\<in>set bs. snd (fst b sc) = sc"
  shows "\<exists>cs oc. code = JSwitch (JHost p) cs oc \<and> length cs = length bs
     \<and> (\<forall>i<length bs. emitJITCode (snd (bs ! i)) ids entryId g = Inr (snd (cs ! i)))
     \<and> (case ow of None \<Rightarrow> oc = None
         | Some b \<Rightarrow> \<exists>c. emitJITCode b ids entryId g = Inr c \<and> oc = Some c)
     \<and> execJS (Suc n) code sc =
         (case execSeq (execJS n)
                 (map snd (drop (length (takeWhile (\<lambda>b. fst (fst b sc) \<noteq> fst (p sc)) bs)) cs)
                  @ (case oc of None \<Rightarrow> [] | Some s \<Rightarrow> [s])) sc of
            Ok (c, sc2) \<Rightarrow> (case c of CBreak \<Rightarrow> Ok (CNormal, sc2) | _ \<Rightarrow> Ok (c, sc2))
          | Throw e \<Rightarrow> Throw e | OutOfFuel \<Rightarrow> OutOfFuel)"
proof -
  from emitJITCode_Switch [OF e] obtain cs oc where
    code: "code = JSwitch (JHost p) cs oc" and l: "length cs = length bs"
    and f: "\<forall>i<length bs. fst (cs ! i) = JHost (fst (bs ! i))"
    and b: "\<forall>i<length bs. emitJITCode (snd (bs ! i)) ids entryId g = Inr (snd (cs ! i))"
    and oc: "case ow of None \<Rightarrow> oc = None
         | Some b \<Rightarrow> \<exists>c. emitJITCode b ids entryId g = Inr c \<and> oc = Some c"
    by blast
  obtain v where v: "p sc = (v, sc)" using pure(1) by (cases "p sc") simp
  have "execCases (execJS n) v cs oc sc =
     execSeq (execJS n) (map snd (dropWhile (\<lambda>c. evalJS (fst c) sc \<noteq> Ok (v, sc)) cs)
                 @ (case oc of None \<Rightarrow> [] | Some s \<Rightarrow> [s])) sc"
    by (rule execCases_falls_through [OF cases_pure [OF l f pure(2)]])
  also have "dropWhile (\<lambda>c. evalJS (fst c) sc \<noteq> Ok (v, sc)) cs
           = drop (length (takeWhile (\<lambda>b. fst (fst b sc) \<noteq> v) bs)) cs"
    by (rule dropWhile_cases [OF l f pure(2)])
  finally have "execJS (Suc n) code sc =
         (case execSeq (execJS n)
                 (map snd (drop (length (takeWhile (\<lambda>b. fst (fst b sc) \<noteq> fst (p sc)) bs)) cs)
                  @ (case oc of None \<Rightarrow> [] | Some s \<Rightarrow> [s])) sc of
            Ok (c, sc2) \<Rightarrow> (case c of CBreak \<Rightarrow> Ok (CNormal, sc2) | _ \<Rightarrow> Ok (c, sc2))
          | Throw e \<Rightarrow> Throw e | OutOfFuel \<Rightarrow> OutOfFuel)"
    using code v by (simp add: evalJS_def del: execSeq.simps execCases.simps)
  with code l b oc show ?thesis by blast
qed

text \<open>
  Claim C4 says that the step of a Switch runs the body of the first matching branch
  once, without fallthrough into later branches, and that the successor of every
  branch block is the outer successor of the Switch. The code does neither, and its
  two ways of running a Switch disagree with each other.
  \<^item> In the fused program \<open>switchFused 1\<close> the first branch matches and the bodies of
    both branches run: the program returns 11, not 1.
  \<^item> In the flow graph of that program the Switch has the Return (id 4) as \<open>next\<close>,
    while the \<open>next\<close> of either branch block is a block that carries no id.
  \<^item> With a single branch the fused program \<open>switchSingleFused\<close> returns 1, as the
    claim says. \<open>switchStepped\<close>, the same program with a call of \<open>nop\<close> in the branch,
    so that the Switch is a step of its own, ends after the branch without reaching
    the Return: it returns \<open>undefined\<close>.
\<close>

theorem C4_matched_branch_falls_through:
  "newInterpreterExec scenarioLang (switchFused 1) [] [] 20 = Ok (VNum 11)
   \<and> switchSuccessorIds (switchFused 1) = Some [(4, [Some (- 1), Some (- 1)])]
   \<and> newInterpreterExec scenarioLang switchSingleFused [] [] 20 = Ok (VNum 1)
   \<and> newInterpreterExec scenarioLang switchStepped [] [] 20 = Ok VUndefined"
  by code_simp

end
